theory Spec2Isabelle
  imports Complex_Main "HOL-Library.Multiset"
begin

section \<open>Values, errors and arrays\<close>

text \<open>
  The module \<^verbatim>\<open>pyresample/gradient/__init__.py\<close> works on numpy and dask arrays of
  floating point numbers. An array is modelled by its shape and its elements in C order
  (the order in which \<^verbatim>\<open>reshape\<close> reads and writes them). Every exception the
  Python code can raise is a value of \<open>error\<close>; a function that can raise returns
  \<open>error + 'a\<close>, with \<open>Inl\<close> for the exception.
\<close>

datatype error =
    NotImplementedError string
  | ValueError
  | IndexError
  | ZeroDivisionError
  | TopologicalError

text \<open>
  A float is NaN, an infinity or a finite number. Only comparisons, \<^verbatim>\<open>isfinite\<close> and
  \<^verbatim>\<open>isnan\<close> are computed on floats here (no rounding arithmetic), so the finite
  numbers are taken as reals.
\<close>

datatype float64 = NaN | NegInf | Fin real | PosInf

fun isfinite :: "float64 \<Rightarrow> bool" where
  "isfinite (Fin r) = True"
| "isfinite v = False"

fun isnan :: "float64 \<Rightarrow> bool" where
  "isnan NaN = True"
| "isnan v = False"

record 'a ndarray =
  shape :: "nat list"
  elems :: "'a list"

definition ndim :: "'a ndarray \<Rightarrow> nat" where
  "ndim a = length (shape a)"

definition size_of :: "'a ndarray \<Rightarrow> nat" where
  "size_of a = prod_list (shape a)"

definition well_formed :: "'a ndarray \<Rightarrow> bool" where
  "well_formed a = (length (elems a) = prod_list (shape a))"

text \<open>
  A loop whose body can raise: the elements are processed in order and the first
  exception ends the loop.
\<close>

fun for_each :: "('a \<Rightarrow> error + 'b) \<Rightarrow> 'a list \<Rightarrow> error + 'b list" where
  "for_each f [] = Inr []"
| "for_each f (x # xs) =
     (case f x of
        Inl e \<Rightarrow> Inl e
      | Inr y \<Rightarrow> (case for_each f xs of Inl e \<Rightarrow> Inl e | Inr ys \<Rightarrow> Inr (y # ys)))"

text \<open>Python indexing of a sequence of length \<open>n\<close>: a negative index counts from the end.\<close>

definition py_index :: "int \<Rightarrow> nat \<Rightarrow> error + nat" where
  "py_index i n =
     (let j = (if i < 0 then int n + i else i)
      in if 0 \<le> j \<and> j < int n then Inr (nat j) else Inl IndexError)"

text \<open>Python slices \<^verbatim>\<open>xs[:i]\<close> and \<^verbatim>\<open>xs[i:]\<close>: out-of-range bounds are clipped.\<close>

definition py_slice_to :: "'a list \<Rightarrow> int \<Rightarrow> 'a list" where
  "py_slice_to xs i = take (nat (if i < 0 then int (length xs) + i else i)) xs"

definition py_slice_from :: "'a list \<Rightarrow> int \<Rightarrow> 'a list" where
  "py_slice_from xs i = drop (nat (if i < 0 then int (length xs) + i else i)) xs"

text \<open>
  The position of a multi-index in the C-order element list, and \<^verbatim>\<open>a[idx]\<close> for a
  full multi-index.
\<close>

fun ravel :: "nat list \<Rightarrow> nat list \<Rightarrow> nat" where
  "ravel (d # ds) (i # ix) = i * prod_list ds + ravel ds ix"
| "ravel ds ix = 0"

definition valid_index :: "nat list \<Rightarrow> nat list \<Rightarrow> bool" where
  "valid_index sh ix = (length ix = length sh \<and> list_all2 (\<lambda>i d. i < d) ix sh)"

definition item :: "'a ndarray \<Rightarrow> nat list \<Rightarrow> 'a" where
  "item a ix = elems a ! ravel (shape a) ix"

subsection \<open>numpy operations used by the module\<close>

text \<open>
  \<^verbatim>\<open>arr.reshape(new_shape)\<close>: the elements stay in C order. An entry of the new
  shape is a length or \<open>-1\<close> (\<open>Infer\<close>), which numpy computes from the size of the
  array; numpy raises ValueError when the sizes do not match, when more than one entry
  is to be inferred, or when the known entries multiply to zero.
\<close>

datatype dim = Dim nat | Infer

fun known_dim :: "dim \<Rightarrow> nat" where
  "known_dim (Dim k) = k"
| "known_dim Infer = 1"

fun the_dim :: "nat \<Rightarrow> dim \<Rightarrow> nat" where
  "the_dim u (Dim k) = k"
| "the_dim u Infer = u"

definition reshape :: "'a ndarray \<Rightarrow> dim list \<Rightarrow> error + 'a ndarray" where
  "reshape a new_shape =
     (let known = prod_list (map known_dim new_shape);
          unknown = length (filter (\<lambda>d. d = Infer) new_shape)
      in if unknown = 0
         then (if known = size_of a
               then Inr \<lparr>shape = map (the_dim 0) new_shape, elems = elems a\<rparr>
               else Inl ValueError)
         else if unknown = 1
         then (if known = 0 then Inl ValueError
               else if size_of a mod known = 0
               then Inr \<lparr>shape = map (the_dim (size_of a div known)) new_shape,
                         elems = elems a\<rparr>
               else Inl ValueError)
         else Inl ValueError)"

text \<open>
  \<^verbatim>\<open>np.take(a, x, axis=axis)\<close> for one index \<open>x\<close>: the sub-array at position \<open>x\<close>
  of the axis, the axis itself removed.
\<close>

definition np_take :: "'a ndarray \<Rightarrow> nat \<Rightarrow> int \<Rightarrow> error + 'a ndarray" where
  "np_take a x axis =
     (case py_index axis (ndim a) of
        Inl e \<Rightarrow> Inl e
      | Inr ax \<Rightarrow>
          (let outer = prod_list (take ax (shape a));
               n = shape a ! ax;
               inner = prod_list (drop (Suc ax) (shape a))
           in if x < n
              then Inr \<lparr>shape = take ax (shape a) @ drop (Suc ax) (shape a),
                        elems = concat (map (\<lambda>q. take inner (drop ((q * n + x) * inner) (elems a)))
                                            [0..<outer])\<rparr>
              else Inl IndexError))"

text \<open>
  \<^verbatim>\<open>np.take(a, indices, axis=axis)\<close> for a list of indices: the axis keeps its place
  and gets one position per index, in the order of the list.
\<close>

definition np_take_list :: "'a ndarray \<Rightarrow> nat list \<Rightarrow> int \<Rightarrow> error + 'a ndarray" where
  "np_take_list a xs axis =
     (case py_index axis (ndim a) of
        Inl e \<Rightarrow> Inl e
      | Inr ax \<Rightarrow>
          (let outer = prod_list (take ax (shape a));
               n = shape a ! ax;
               inner = prod_list (drop (Suc ax) (shape a))
           in if list_all (\<lambda>x. x < n) xs
              then Inr \<lparr>shape = take ax (shape a) @ [length xs] @ drop (Suc ax) (shape a),
                        elems = concat (map (\<lambda>q. concat (map (\<lambda>x.
                                   take inner (drop ((q * n + x) * inner) (elems a))) xs))
                                   [0..<outer])\<rparr>
              else Inl IndexError))"

text \<open>
  \<^verbatim>\<open>np.stack(layers, axis=axis)\<close>: the layers, all of one shape, along a new axis. The
  axis is counted in the result, which has one dimension more than a layer.
\<close>

definition np_stack :: "'a ndarray list \<Rightarrow> int \<Rightarrow> error + 'a ndarray" where
  "np_stack layers axis =
     (case layers of
        [] \<Rightarrow> Inl ValueError
      | l # ls \<Rightarrow>
          if list_ex (\<lambda>m. shape m \<noteq> shape l) ls then Inl ValueError
          else (case py_index axis (ndim l + 1) of
                  Inl e \<Rightarrow> Inl e
                | Inr ax \<Rightarrow>
                    (let outer = prod_list (take ax (shape l));
                         inner = prod_list (drop ax (shape l))
                     in Inr \<lparr>shape = take ax (shape l) @ [length layers] @ drop ax (shape l),
                             elems = concat (map (\<lambda>q. concat (map (\<lambda>m.
                                        take inner (drop (q * inner) (elems m))) layers))
                                        [0..<outer])\<rparr>)))"

section \<open>GridSplitter: vsplit, hsplit, split\<close>

text \<open>
  \<^verbatim>\<open>
  def vsplit(arr, n):
      res = arr.reshape((n, -1) + arr.shape[1:])
      return [np.take(res, x, axis=0) for x in range(n)]

  def hsplit(arr, n):
      res = arr.reshape((arr.shape[0], n, -1) + arr.shape[2:])
      return [np.take(res, x, axis=1) for x in range(n)]

  def split(arr, n, axis):
      shape = arr.shape
      ax_shape = shape[axis]
      if axis < 0:
          rest_idx = len(shape) + axis + 1
      else:
          rest_idx = axis + 1
      new_shape = shape[:axis] + (n, int(ax_shape / n)) + shape[rest_idx:]
      res = arr.reshape(new_shape)
      return [np.take(res, x, axis=rest_idx - 1) for x in range(n)]
  \<close>
  \<^verbatim>\<open>int(ax_shape / n)\<close> is the floor of the quotient (the quotient of two
  non-negative integers, truncated), and division by \<open>n = 0\<close> raises. Python rounds the
  quotient to a float before it truncates; the rounded quotient is the exact one for
  extents below \<open>2 ^ 53\<close>, and the model takes the exact one throughout.
\<close>

definition vsplit :: "'a ndarray \<Rightarrow> nat \<Rightarrow> error + 'a ndarray list" where
  "vsplit arr n =
     (case reshape arr ([Dim n, Infer] @ map Dim (drop 1 (shape arr))) of
        Inl e \<Rightarrow> Inl e
      | Inr res \<Rightarrow> for_each (\<lambda>x. np_take res x 0) [0..<n])"

definition hsplit :: "'a ndarray \<Rightarrow> nat \<Rightarrow> error + 'a ndarray list" where
  "hsplit arr n =
     (case shape arr of
        [] \<Rightarrow> Inl IndexError
      | d # ds \<Rightarrow>
          (case reshape arr ([Dim d, Dim n, Infer] @ map Dim (drop 2 (shape arr))) of
             Inl e \<Rightarrow> Inl e
           | Inr res \<Rightarrow> for_each (\<lambda>x. np_take res x 1) [0..<n]))"

definition split :: "'a ndarray \<Rightarrow> nat \<Rightarrow> int \<Rightarrow> error + 'a ndarray list" where
  "split arr n axis =
     (case py_index axis (ndim arr) of
        Inl e \<Rightarrow> Inl e
      | Inr ax \<Rightarrow>
          (let ax_shape = shape arr ! ax;
               rest_idx = (if axis < 0 then int (length (shape arr)) + axis + 1 else axis + 1)
           in if n = 0 then Inl ZeroDivisionError
              else (case reshape arr (map Dim (py_slice_to (shape arr) axis @ [n, ax_shape div n]
                                                @ py_slice_from (shape arr) rest_idx)) of
                      Inl e \<Rightarrow> Inl e
                    | Inr res \<Rightarrow> for_each (\<lambda>x. np_take res x (rest_idx - 1)) [0..<n])))"

section \<open>ChunkStacker\<close>

text \<open>
  A dask array is an array together with its chunk sizes along each dimension; the module
  reads only how many chunks a dimension has.
\<close>

record 'a dask_array =
  contents :: "'a ndarray"
  chunks :: "nat list list"

text \<open>
  \<^verbatim>\<open>
  def reshape_arrays_in_stacked_chunks(arrays, chunks):
      h_fac = len(chunks[1])
      v_fac = len(chunks[0])
      res = []
      for array in arrays:
          cols = hsplit(array, h_fac)
          layers = []
          for col in cols:
              layers.extend(vsplit(col, v_fac))
          res.append(np.stack(layers, axis=2))
      return res
  \<close>
\<close>

definition stack_chunks :: "'a ndarray \<Rightarrow> nat \<Rightarrow> nat \<Rightarrow> error + 'a ndarray" where
  "stack_chunks array h_fac v_fac =
     (case hsplit array h_fac of
        Inl e \<Rightarrow> Inl e
      | Inr cols \<Rightarrow>
          (case for_each (\<lambda>col. vsplit col v_fac) cols of
             Inl e \<Rightarrow> Inl e
           | Inr layers \<Rightarrow> np_stack (concat layers) 2))"

definition reshape_arrays_in_stacked_chunks ::
  "'a ndarray list \<Rightarrow> nat list list \<Rightarrow> error + 'a ndarray list" where
  "reshape_arrays_in_stacked_chunks arrays chnks =
     (if length chnks < 2 then Inl IndexError
      else (let h_fac = length (chnks ! 1); v_fac = length (chnks ! 0)
            in for_each (\<lambda>array. stack_chunks array h_fac v_fac) arrays))"

text \<open>
  \<^verbatim>\<open>
  def reshape_to_stacked_3d(array):
      chunks = array.chunks
      x_fac = len(chunks[-1])
      y_fac = len(chunks[-2])
      cols = split(array, x_fac, -1)
      layers = []
      for col in cols:
          layers.extend(split(col, y_fac, -2))
      return np.stack(layers, axis=-1)
  \<close>
\<close>

definition reshape_to_stacked_3d :: "'a dask_array \<Rightarrow> error + 'a ndarray" where
  "reshape_to_stacked_3d array =
     (case py_index (- 1) (length (chunks array)) of
        Inl e \<Rightarrow> Inl e
      | Inr i1 \<Rightarrow>
          (case py_index (- 2) (length (chunks array)) of
             Inl e \<Rightarrow> Inl e
           | Inr i2 \<Rightarrow>
               (let x_fac = length (chunks array ! i1); y_fac = length (chunks array ! i2)
                in case split (contents array) x_fac (- 1) of
                     Inl e \<Rightarrow> Inl e
                   | Inr cols \<Rightarrow>
                       (case for_each (\<lambda>col. split col y_fac (- 2)) cols of
                          Inl e \<Rightarrow> Inl e
                        | Inr layers \<Rightarrow> np_stack (concat layers) (- 1)))))"

text \<open>
  The inverse reconstruction the round-trip property speaks of is not part of the
  module. It is written here from the specification's words: the tile axis of a stacked
  array of shape \<open>[h, w, R * C]\<close> is un-stacked into the \<open>R \<times> C\<close> grid of chunks, tile
  \<open>c * R + r\<close> (columns outer, rows inner) going to chunk row \<open>r\<close> and chunk column \<open>c\<close>.
\<close>

definition unstack_chunks :: "nat \<Rightarrow> nat \<Rightarrow> 'a ndarray \<Rightarrow> 'a ndarray" where
  "unstack_chunks R C st =
     (let h = shape st ! 0; w = shape st ! 1
      in \<lparr>shape = [R * h, C * w],
          elems = concat (map (\<lambda>y. map (\<lambda>x.
                    item st [y mod h, x mod w, (x div w) * R + y div h]) [0..<C * w])
                    [0..<R * h])\<rparr>)"

section \<open>FootprintPolygonBuilder\<close>

text \<open>
  The polygon type and its operations belong to the shapely library. They are parameters
  of the model: the constructor (which may refuse a boundary), the area, and the
  \<^verbatim>\<open>intersects\<close> predicate (which may raise, among others, TopologicalError).
\<close>

record 'p geometry =
  Polygon :: "(float64 \<times> float64) list \<Rightarrow> error + 'p"
  area :: "'p \<Rightarrow> real"
  intersects :: "'p \<Rightarrow> 'p \<Rightarrow> error + bool"

text \<open>
  \<^verbatim>\<open>x_coords[i, j]\<close> for integers \<open>i\<close> and \<open>j\<close>: a number for a 2D array, and for an
  array of more dimensions the sub-array at that row and column, given here by its
  elements. The truth value numpy gives an array in a condition: that of its only
  element, False for an empty array, and ValueError for more than one element.
\<close>

definition corner :: "'a ndarray \<Rightarrow> int \<Rightarrow> int \<Rightarrow> error + 'a list" where
  "corner a i j =
     (case shape a of
        r # c # rest \<Rightarrow>
          (case py_index i r of
             Inl e \<Rightarrow> Inl e
           | Inr i' \<Rightarrow>
               (case py_index j c of
                  Inl e \<Rightarrow> Inl e
                | Inr j' \<Rightarrow>
                    Inr (take (prod_list rest) (drop ((i' * c + j') * prod_list rest) (elems a)))))
      | _ \<Rightarrow> Inl IndexError)"

fun truth_value :: "bool list \<Rightarrow> error + bool" where
  "truth_value [] = Inr False"
| "truth_value [b] = Inr b"
| "truth_value bs = Inl ValueError"

text \<open>
  \<^verbatim>\<open>
  def get_corners(x_coords, y_coords):
      x1 = x_coords[0, 0]
      x2 = x_coords[0, -1]
      x3 = x_coords[-1, -1]
      x4 = x_coords[-1, 0]
      y1 = y_coords[0, 0]
      y2 = y_coords[0, -1]
      y3 = y_coords[-1, -1]
      y4 = y_coords[-1, 0]
      res = da.compute(x1, x2, x3, x4, y1, y2, y3, y4)
      x_s = np.array(res[0:4])
      y_s = np.array(res[4:])
      return x_s, y_s

  def get_boundary(x_coords, y_coords):
      x_border, y_border = get_corners(x_coords, y_coords)
      boundary = [(x_border[i], y_border[i]) for i in range(len(x_border))
                  if np.isfinite(x_border[i]) and np.isfinite(y_border[i])]
      return boundary

  def get_polygon(x_coords, y_coords):
      boundary = get_boundary(x_coords, y_coords)
      return Polygon(boundary)
  \<close>
\<close>

definition get_corners ::
  "'a ndarray \<Rightarrow> 'a ndarray \<Rightarrow> error + ('a list list \<times> 'a list list)" where
  "get_corners x_coords y_coords =
     (case for_each (\<lambda>(i, j). corner x_coords i j) [(0, 0), (0, - 1), (- 1, - 1), (- 1, 0)] of
        Inl e \<Rightarrow> Inl e
      | Inr x_s \<Rightarrow>
          (case for_each (\<lambda>(i, j). corner y_coords i j)
                  [(0, 0), (0, - 1), (- 1, - 1), (- 1, 0)] of
             Inl e \<Rightarrow> Inl e
           | Inr y_s \<Rightarrow> Inr (x_s, y_s)))"

definition both_finite :: "float64 list \<times> float64 list \<Rightarrow> error + bool" where
  "both_finite p =
     (case truth_value (map isfinite (fst p)) of
        Inl e \<Rightarrow> Inl e
      | Inr bx \<Rightarrow> if bx then truth_value (map isfinite (snd p)) else Inr False)"

fun keep_finite ::
  "(float64 list \<times> float64 list) list \<Rightarrow> error + (float64 \<times> float64) list" where
  "keep_finite [] = Inr []"
| "keep_finite (p # ps) =
     (case both_finite p of
        Inl e \<Rightarrow> Inl e
      | Inr b \<Rightarrow>
          (case keep_finite ps of
             Inl e \<Rightarrow> Inl e
           | Inr rest \<Rightarrow> Inr (if b then (hd (fst p), hd (snd p)) # rest else rest)))"

definition get_boundary ::
  "float64 ndarray \<Rightarrow> float64 ndarray \<Rightarrow> error + (float64 \<times> float64) list" where
  "get_boundary x_coords y_coords =
     (case get_corners x_coords y_coords of
        Inl e \<Rightarrow> Inl e
      | Inr (x_border, y_border) \<Rightarrow> keep_finite (zip x_border y_border))"

definition get_polygon ::
  "'p geometry \<Rightarrow> float64 ndarray \<Rightarrow> float64 ndarray \<Rightarrow> error + 'p" where
  "get_polygon g x_coords y_coords =
     (case get_boundary x_coords y_coords of
        Inl e \<Rightarrow> Inl e
      | Inr boundary \<Rightarrow> Polygon g boundary)"

section \<open>TileCuller\<close>

text \<open>
  \<^verbatim>\<open>np.split(a, sections, axis=-1)\<close>: \<open>sections\<close> equal parts of the last axis, in
  order. numpy computes \<^verbatim>\<open>a.shape[axis] % sections\<close> first, which raises for
  \<open>sections = 0\<close>, and ValueError when the division is not even.
\<close>

definition np_split_last :: "'a ndarray \<Rightarrow> nat \<Rightarrow> error + 'a ndarray list" where
  "np_split_last a sections =
     (case py_index (- 1) (ndim a) of
        Inl e \<Rightarrow> Inl e
      | Inr ax \<Rightarrow>
          (let n = shape a ! ax in
           if sections = 0 then Inl ZeroDivisionError
           else if n mod sections = 0
           then (let k = n div sections
                 in Inr (map (\<lambda>z. \<lparr>shape = take ax (shape a) @ [k],
                                     elems = concat (map (\<lambda>q. take k (drop (q * n + z * k) (elems a)))
                                                [0..<prod_list (take ax (shape a))])\<rparr>)
                          [0..<sections]))
           else Inl ValueError))"

text \<open>
  \<^verbatim>\<open>np.take(arr, covers, axis=-1)\<close> with the list of booleans \<open>covers\<close>. The stacked
  arrays are dask arrays (the module reads their \<^verbatim>\<open>chunks\<close> and passes them to
  \<^verbatim>\<open>da.compute\<close> and \<^verbatim>\<open>da.blockwise\<close>), so the call is dask's \<^verbatim>\<open>take\<close>, which
  indexes \<^verbatim>\<open>arr[..., covers]\<close>: dask reads a list of booleans as a mask, checks that
  it is as long as the axis (IndexError otherwise) and keeps the positions that are True,
  in order.
\<close>

definition nonzero :: "bool list \<Rightarrow> nat list" where
  "nonzero covers = filter (\<lambda>i. covers ! i) [0..<length covers]"

definition take_mask :: "'a ndarray \<Rightarrow> bool list \<Rightarrow> int \<Rightarrow> error + 'a ndarray" where
  "take_mask a covers axis =
     (case py_index axis (ndim a) of
        Inl e \<Rightarrow> Inl e
      | Inr ax \<Rightarrow>
          if length covers = shape a ! ax then np_take_list a (nonzero covers) axis
          else Inl IndexError)"

text \<open>
  \<^verbatim>\<open>
  def remove_extra_chunks(arrays, dst_x, dst_y):
      dst_polygon = get_polygon(dst_x, dst_y)
      num_chunks = arrays[0].shape[-1]
      src_x, src_y = da.compute(arrays[1], arrays[2])
      src_x = np.split(src_x, num_chunks, axis=-1)
      src_y = np.split(src_y, num_chunks, axis=-1)
      src_polys = [get_polygon(x, y) for (x, y) in zip(src_x, src_y)]

      covers = []
      for poly in src_polys:
          try:
              # Destination area has all corners/sides in space
              if dst_polygon.area == 0.0:
                  cov = True
              else:
                  cov = dst_polygon.intersects(poly)
          # This happens if the target area "goes over the edge" of the
          # GEO disk and the border isn't a closed curve
          except TopologicalError:
              cov = True
          covers.append(cov)

      res = []
      for arr in arrays:
          res.append(np.take(arr, covers, axis=-1))
      return res
  \<close>
\<close>

definition cover :: "'p geometry \<Rightarrow> 'p \<Rightarrow> 'p \<Rightarrow> error + bool" where
  "cover g dst_polygon poly =
     (if area g dst_polygon = 0 then Inr True
      else (case intersects g dst_polygon poly of
              Inl e \<Rightarrow> if e = TopologicalError then Inr True else Inl e
            | Inr cov \<Rightarrow> Inr cov))"

definition source_polygons ::
  "'p geometry \<Rightarrow> float64 ndarray list \<Rightarrow> error + 'p list" where
  "source_polygons g arrays =
     (case arrays of
        [] \<Rightarrow> Inl IndexError
      | a0 # rest \<Rightarrow>
          (case py_index (- 1) (ndim a0) of
             Inl e \<Rightarrow> Inl e
           | Inr ax \<Rightarrow>
               (let num_chunks = shape a0 ! ax in
                if length arrays < 3 then Inl IndexError
                else (case np_split_last (arrays ! 1) num_chunks of
                        Inl e \<Rightarrow> Inl e
                      | Inr src_x \<Rightarrow>
                          (case np_split_last (arrays ! 2) num_chunks of
                             Inl e \<Rightarrow> Inl e
                           | Inr src_y \<Rightarrow>
                               for_each (\<lambda>(x, y). get_polygon g x y) (zip src_x src_y))))))"

definition remove_extra_chunks ::
  "'p geometry \<Rightarrow> float64 ndarray list \<Rightarrow> float64 ndarray \<Rightarrow> float64 ndarray
     \<Rightarrow> error + float64 ndarray list" where
  "remove_extra_chunks g arrays dst_x dst_y =
     (case get_polygon g dst_x dst_y of
        Inl e \<Rightarrow> Inl e
      | Inr dst_polygon \<Rightarrow>
          (case source_polygons g arrays of
             Inl e \<Rightarrow> Inl e
           | Inr src_polys \<Rightarrow>
               (case for_each (cover g dst_polygon) src_polys of
                  Inl e \<Rightarrow> Inl e
                | Inr covers \<Rightarrow> for_each (\<lambda>arr. take_mask arr covers (- 1)) arrays)))"

text \<open>The tiles of a stacked array: its slices along the last axis, in order.\<close>

definition tiles :: "'a ndarray \<Rightarrow> 'a list list" where
  "tiles a =
     (let n = last (shape a)
      in map (\<lambda>z. map (\<lambda>q. elems a ! (q * n + z)) [0..<prod_list (butlast (shape a))]) [0..<n])"

section \<open>OverlapReducer\<close>

text \<open>
  \<^verbatim>\<open>da.nanmax(res, axis=-1).squeeze()\<close>. The NaN-ignoring maximum is the reduction of
  the axis with \<^verbatim>\<open>fmax\<close>, which returns the other argument when one is NaN; it raises
  ValueError for an axis of length zero (\<^verbatim>\<open>fmax\<close> has no identity). Floats that are
  not NaN are ordered as usual, the infinities below and above every finite number.
  \<^verbatim>\<open>squeeze\<close> removes every axis of length one.
\<close>

fun fle :: "float64 \<Rightarrow> float64 \<Rightarrow> bool" where
  "fle NaN b = False"
| "fle a NaN = False"
| "fle NegInf b = True"
| "fle a PosInf = True"
| "fle (Fin a) (Fin b) = (a \<le> b)"
| "fle a b = False"

definition fmax :: "float64 \<Rightarrow> float64 \<Rightarrow> float64" where
  "fmax a b = (if isnan a then b else if isnan b then a else if fle b a then a else b)"

fun nanmax_list :: "float64 list \<Rightarrow> error + float64" where
  "nanmax_list [] = Inl ValueError"
| "nanmax_list (x # xs) = Inr (foldl fmax x xs)"

definition nanmax_last :: "float64 ndarray \<Rightarrow> error + float64 ndarray" where
  "nanmax_last a =
     (case py_index (- 1) (ndim a) of
        Inl e \<Rightarrow> Inl e
      | Inr ax \<Rightarrow>
          (let n = shape a ! ax in
           if n = 0 then Inl ValueError
           else (case for_each (\<lambda>q. nanmax_list (take n (drop (q * n) (elems a))))
                        [0..<prod_list (take ax (shape a))] of
                   Inl e \<Rightarrow> Inl e
                 | Inr vs \<Rightarrow> Inr \<lparr>shape = take ax (shape a), elems = vs\<rparr>)))"

definition squeeze :: "'a ndarray \<Rightarrow> 'a ndarray" where
  "squeeze a = \<lparr>shape = filter (\<lambda>d. d \<noteq> 1) (shape a), elems = elems a\<rparr>"

definition overlap_reduce :: "float64 ndarray \<Rightarrow> error + float64 ndarray" where
  "overlap_reduce res =
     (case nanmax_last res of Inl e \<Rightarrow> Inl e | Inr r \<Rightarrow> Inr (squeeze r))"

text \<open>
  The values that the tiles give at one destination pixel: the entries of a stack of
  per-tile results along its last axis, at the pixel with position \<open>q\<close> in C order.
\<close>

definition pixel_values :: "'a ndarray \<Rightarrow> nat \<Rightarrow> 'a list" where
  "pixel_values res q =
     map (\<lambda>z. elems res ! (q * last (shape res) + z)) [0..<last (shape res)]"

section \<open>GradientFieldComputer and ParallelResampleDispatcher\<close>

text \<open>
  \<^verbatim>\<open>np.gradient(f, axis=[0, 1])\<close> on a dask array is dask's \<^verbatim>\<open>gradient\<close>. It returns
  two arrays of the shape of \<open>f\<close> and raises ValueError when a chunk of one of the two
  axes has fewer than two elements (so also when an axis has). The differences themselves
  are rounded floating point arithmetic; they are a parameter \<open>diff\<close> of the model (the
  elements of the gradient of \<open>f\<close> along an axis).
\<close>

type_synonym differences = "float64 ndarray \<Rightarrow> nat \<Rightarrow> float64 list"

definition np_gradient ::
  "differences \<Rightarrow> float64 dask_array \<Rightarrow> error + (float64 ndarray \<times> float64 ndarray)" where
  "np_gradient diff f =
     (let a = contents f in
      if ndim a < 2 \<or> length (chunks f) < 2 then Inl IndexError
      else if shape a ! 0 < 2 \<or> shape a ! 1 < 2
              \<or> list_ex (\<lambda>c. c < 2) (chunks f ! 0) \<or> list_ex (\<lambda>c. c < 2) (chunks f ! 1)
      then Inl ValueError
      else Inr (\<lparr>shape = shape a, elems = diff a 0\<rparr>, \<lparr>shape = shape a, elems = diff a 1\<rparr>))"

text \<open>
  Modelled from the spec: \<^verbatim>\<open>one_step_gradient_search\<close> of
  \<^verbatim>\<open>pyresample.gradient._gradient_search\<close>, the single-tile kernel, is not among the
  sources. It is a parameter: given one tile's data, source coordinates and four
  gradients, the destination coordinates and the method, it returns an array (by the
  specification, of the bands of the tile's data and the rows and columns of the
  destination, NaN outside the tile's footprint) or raises.
\<close>

type_synonym kernel =
  "float64 ndarray \<Rightarrow> float64 ndarray \<Rightarrow> float64 ndarray \<Rightarrow> float64 ndarray \<Rightarrow> float64 ndarray
     \<Rightarrow> float64 ndarray \<Rightarrow> float64 ndarray \<Rightarrow> float64 ndarray \<Rightarrow> float64 ndarray \<Rightarrow> string
     \<Rightarrow> error + float64 ndarray"

text \<open>
  \<^verbatim>\<open>
  def _gradient_resample_data(src_data, src_x, src_y,
                              src_gradient_xl, src_gradient_xp,
                              src_gradient_yl, src_gradient_yp,
                              dst_x, dst_y, method='bilinear'):
      image = one_step_gradient_search(
          src_data[0][0][:, :, :, 0],
          src_x[0][0][:, :, 0],
          src_y[0][0][:, :, 0],
          src_gradient_xl[0][0][:, :, 0],
          src_gradient_xp[0][0][:, :, 0],
          src_gradient_yl[0][0][:, :, 0],
          src_gradient_yp[0][0][:, :, 0],
          dst_x,
          dst_y,
          method=method)
      return image[:, :, :, np.newaxis]
  \<close>
  \<^verbatim>\<open>da.blockwise\<close> calls this function once for every chunk of the tile axis \<open>z\<close> (one
  tile per chunk, as the stacking leaves them) and puts the blocks together along
  \<open>z\<close>; the arguments are the tile of each stacked array. The result has the shape
  dask derives from the index letters \<^verbatim>\<open>'bmnz'\<close>; the model treats a block of another
  shape, and arguments whose common axes differ, as ValueError. The destination is
  taken as one chunk.
\<close>

definition gradient_resample_data ::
  "kernel \<Rightarrow> float64 ndarray \<Rightarrow> float64 ndarray \<Rightarrow> float64 ndarray \<Rightarrow> float64 ndarray
     \<Rightarrow> float64 ndarray \<Rightarrow> float64 ndarray \<Rightarrow> float64 ndarray \<Rightarrow> float64 ndarray
     \<Rightarrow> float64 ndarray \<Rightarrow> string \<Rightarrow> error + float64 ndarray" where
  "gradient_resample_data k src_data src_x src_y gxl gxp gyl gyp dst_x dst_y method =
     (case k src_data src_x src_y gxl gxp gyl gyp dst_x dst_y method of
        Inl e \<Rightarrow> Inl e
      | Inr img \<Rightarrow>
          if ndim img < 3 then Inl IndexError
          else Inr \<lparr>shape = take 3 (shape img) @ [1] @ drop 3 (shape img),
                    elems = elems img\<rparr>)"

definition tile_call ::
  "kernel \<Rightarrow> float64 ndarray list \<Rightarrow> float64 ndarray \<Rightarrow> float64 ndarray \<Rightarrow> string \<Rightarrow> nat
     \<Rightarrow> error + float64 ndarray" where
  "tile_call k arrays dst_x dst_y method z =
     (case for_each (\<lambda>a. np_take a z (- 1)) arrays of
        Inl e \<Rightarrow> Inl e
      | Inr ts \<Rightarrow>
          (case ts of
             [d, sx, sy, gxl, gxp, gyl, gyp] \<Rightarrow>
               gradient_resample_data k d sx sy gxl gxp gyl gyp dst_x dst_y method
           | _ \<Rightarrow> Inl ValueError))"

definition blockwise ::
  "kernel \<Rightarrow> float64 ndarray list \<Rightarrow> float64 ndarray \<Rightarrow> float64 ndarray \<Rightarrow> string
     \<Rightarrow> error + float64 ndarray" where
  "blockwise k arrays dst_x dst_y method =
     (case arrays of
        [] \<Rightarrow> Inl ValueError
      | data # coords \<Rightarrow>
          if length coords = 6 \<and> ndim data = 4 \<and> ndim dst_x = 2 \<and> shape dst_y = shape dst_x
             \<and> list_all (\<lambda>a. shape a = drop 1 (shape data)) coords
          then (let B = shape data ! 0; Z = shape data ! 3;
                    M = shape dst_x ! 0; N = shape dst_x ! 1
                in case for_each (tile_call k arrays dst_x dst_y method) [0..<Z] of
                     Inl e \<Rightarrow> Inl e
                   | Inr blocks \<Rightarrow>
                       if list_all (\<lambda>b. shape b = [B, M, N, 1]) blocks
                       then Inr \<lparr>shape = [B, M, N, Z],
                                 elems = concat (map (\<lambda>q. map (\<lambda>b. elems b ! q) blocks)
                                            [0..<B * M * N])\<rparr>
                       else Inl ValueError)
          else Inl ValueError)"

text \<open>
  \<^verbatim>\<open>
  def parallel_gradient_search(data, src_x, src_y, dst_x, dst_y, **kwargs):
      if data.ndim not in [2, 3]:
          raise NotImplementedError('Gradient search resampling only supports 2D or 3D arrays.')
      if data.ndim == 2:
          data = data[np.newaxis, :, :]
      src_gradient_xl, src_gradient_xp = np.gradient(src_x, axis=[0, 1])
      src_gradient_yl, src_gradient_yp = np.gradient(src_y, axis=[0, 1])
      arrays = reshape_arrays_in_stacked_chunks((src_x, src_y,
                                                 src_gradient_xl, src_gradient_xp,
                                                 src_gradient_yl, src_gradient_yp),
                                                src_x.chunks)
      src_x, src_y, src_gradient_xl, src_gradient_xp, src_gradient_yl, src_gradient_yp = arrays
      data = reshape_to_stacked_3d(data)
      arrays = remove_extra_chunks((data, src_x, src_y, src_gradient_xl,
                                    src_gradient_xp, src_gradient_yl,
                                    src_gradient_yp), dst_x, dst_y)
      (data, src_x, src_y, src_gradient_xl, src_gradient_xp, src_gradient_yl,
       src_gradient_yp) = arrays
      res = da.blockwise(_gradient_resample_data, 'bmnz', data.astype(np.float64), 'bijz',
                         src_x, 'ijz', src_y, 'ijz',
                         src_gradient_xl, 'ijz', src_gradient_xp, 'ijz',
                         src_gradient_yl, 'ijz', src_gradient_yp, 'ijz',
                         dst_x, 'mn', dst_y, 'mn',
                         dtype=np.float64,
                         method=kwargs.get('method', 'bilinear'))
      return da.nanmax(res, axis=-1).squeeze()
  \<close>
  The keyword arguments are modelled by the optional \<open>method\<close>.
\<close>

definition newaxis_front :: "'a dask_array \<Rightarrow> 'a dask_array" where
  "newaxis_front d =
     \<lparr>contents = \<lparr>shape = 1 # shape (contents d), elems = elems (contents d)\<rparr>,
      chunks = [1] # chunks d\<rparr>"

definition unsupported_rank :: error where
  "unsupported_rank = NotImplementedError ''Gradient search resampling only supports 2D or 3D arrays.''"

definition parallel_gradient_search ::
  "kernel \<Rightarrow> differences \<Rightarrow> 'p geometry \<Rightarrow> float64 dask_array \<Rightarrow> float64 dask_array
     \<Rightarrow> float64 dask_array \<Rightarrow> float64 ndarray \<Rightarrow> float64 ndarray \<Rightarrow> string option
     \<Rightarrow> error + float64 ndarray" where
  "parallel_gradient_search k diff g data src_x src_y dst_x dst_y method =
     (if ndim (contents data) = 2 \<or> ndim (contents data) = 3
      then (let data3 = (if ndim (contents data) = 2 then newaxis_front data else data)
            in case np_gradient diff src_x of
                 Inl e \<Rightarrow> Inl e
               | Inr (gxl, gxp) \<Rightarrow>
                   (case np_gradient diff src_y of
                      Inl e \<Rightarrow> Inl e
                    | Inr (gyl, gyp) \<Rightarrow>
                        (case reshape_arrays_in_stacked_chunks
                                [contents src_x, contents src_y, gxl, gxp, gyl, gyp]
                                (chunks src_x) of
                           Inl e \<Rightarrow> Inl e
                         | Inr arrays \<Rightarrow>
                             (case reshape_to_stacked_3d data3 of
                                Inl e \<Rightarrow> Inl e
                              | Inr stacked \<Rightarrow>
                                  (case remove_extra_chunks g (stacked # arrays) dst_x dst_y of
                                     Inl e \<Rightarrow> Inl e
                                   | Inr kept \<Rightarrow>
                                       (case blockwise k kept dst_x dst_y
                                               (case method of None \<Rightarrow> ''bilinear''
                                                             | Some m \<Rightarrow> m) of
                                          Inl e \<Rightarrow> Inl e
                                        | Inr res \<Rightarrow> overlap_reduce res))))))
      else Inl unsupported_rank)"

text \<open>
  The exceptions that report an unsupported rank, and the external parts that never raise
  one: the kernel and the geometry are parameters, so what they raise is theirs.
\<close>

fun not_implemented :: "error \<Rightarrow> bool" where
  "not_implemented (NotImplementedError s) = True"
| "not_implemented e = False"

definition raise_no_rank_error :: "kernel \<Rightarrow> 'p geometry \<Rightarrow> bool" where
  "raise_no_rank_error k g =
     ((\<forall>d sx sy gxl gxp gyl gyp dx dy m e.
         k d sx sy gxl gxp gyl gyp dx dy m = Inl e \<longrightarrow> \<not> not_implemented e) \<and>
      (\<forall>b e. Polygon g b = Inl e \<longrightarrow> \<not> not_implemented e) \<and>
      (\<forall>p q e. intersects g p q = Inl e \<longrightarrow> \<not> not_implemented e))"

section \<open>Instances of the external parts, for running the model on concrete grids\<close>

text \<open>
  A geometry on concrete grids. A polygon is its list of vertices. As shapely's
  constructor does, \<open>Polygon\<close> accepts the empty boundary (the empty polygon) and refuses
  a boundary of one or two points with ValueError (a ring needs at least three
  coordinate tuples). The area is the shoelace formula. \<open>intersects\<close> compares bounding
  boxes, which decides intersection for the axis-parallel rectangles that the examples
  below use; the empty polygon intersects nothing.
\<close>

fun coord :: "float64 \<Rightarrow> real" where
  "coord (Fin r) = r"
| "coord v = 0"

definition shoelace :: "(real \<times> real) list \<Rightarrow> real" where
  "shoelace ps =
     \<bar>sum_list (map (\<lambda>((x1, y1), (x2, y2)). x1 * y2 - x2 * y1) (zip ps (rotate1 ps)))\<bar> / 2"

fun least :: "real list \<Rightarrow> real" where
  "least [] = 0"
| "least (x # xs) = foldl min x xs"

fun greatest :: "real list \<Rightarrow> real" where
  "greatest [] = 0"
| "greatest (x # xs) = foldl max x xs"

definition boxes_overlap :: "(real \<times> real) list \<Rightarrow> (real \<times> real) list \<Rightarrow> bool" where
  "boxes_overlap p q =
     (p \<noteq> [] \<and> q \<noteq> []
      \<and> least (map fst p) \<le> greatest (map fst q) \<and> least (map fst q) \<le> greatest (map fst p)
      \<and> least (map snd p) \<le> greatest (map snd q) \<and> least (map snd q) \<le> greatest (map snd p))"

definition grid_geometry :: "(real \<times> real) list geometry" where
  "grid_geometry =
     \<lparr>Polygon = (\<lambda>boundary.
         if length boundary = 1 \<or> length boundary = 2 then Inl ValueError
         else Inr (map (\<lambda>(x, y). (coord x, coord y)) boundary)),
      area = shoelace,
      intersects = (\<lambda>p q. Inr (boxes_overlap p q))\<rparr>"

text \<open>
  A kernel that fills every destination pixel of a band with the first sample of that
  band in the tile, and differences that are zero everywhere.
\<close>

definition first_sample_kernel :: kernel where
  "first_sample_kernel d sx sy gxl gxp gyl gyp dx dy m =
     (let B = shape d ! 0; M = shape dx ! 0; N = shape dx ! 1
      in Inr \<lparr>shape = [B, M, N],
              elems = concat (map (\<lambda>b. replicate (M * N) (elems d ! (b * (size_of d div B))))
                         [0..<B])\<rparr>)"

definition zero_differences :: differences where
  "zero_differences f axis = replicate (size_of f) (Fin 0)"

text \<open>
  A 4 by 4 source grid in 2 by 2 chunks: the coordinates of a pixel are its column and
  its row.
\<close>

definition example_x :: "float64 dask_array" where
  "example_x = \<lparr>contents = \<lparr>shape = [4, 4],
       elems = map Fin [0, 1, 2, 3, 0, 1, 2, 3, 0, 1, 2, 3, 0, 1, 2, 3]\<rparr>,
     chunks = [[2, 2], [2, 2]]\<rparr>"

definition example_y :: "float64 dask_array" where
  "example_y = \<lparr>contents = \<lparr>shape = [4, 4],
       elems = map Fin [0, 0, 0, 0, 1, 1, 1, 1, 2, 2, 2, 2, 3, 3, 3, 3]\<rparr>,
     chunks = [[2, 2], [2, 2]]\<rparr>"

definition example_data :: "float64 dask_array" where
  "example_data = \<lparr>contents = \<lparr>shape = [4, 4],
       elems = map Fin [10, 11, 12, 13, 14, 15, 16, 17, 18, 19, 20, 21, 22, 23, 24, 25]\<rparr>,
     chunks = [[2, 2], [2, 2]]\<rparr>"

text \<open>
  A destination grid of 2 by 2 pixels on the coordinates of the top-left chunk of the
  source grid; the seven stacked arrays of the example (data, x, y and four gradients, as
  \<open>example_stacked_eq\<close> below computes them); a destination whose four corners
  coincide; and a destination with a single finite corner.
\<close>

definition example_dst_x :: "float64 ndarray" where
  "example_dst_x = \<lparr>shape = [2, 2], elems = map Fin [0, 1, 0, 1]\<rparr>"

definition example_dst_y :: "float64 ndarray" where
  "example_dst_y = \<lparr>shape = [2, 2], elems = map Fin [0, 0, 1, 1]\<rparr>"

definition example_stacked :: "float64 ndarray list" where
  "example_stacked =
     [\<lparr>shape = [1, 2, 2, 4],
       elems = map Fin [10, 18, 12, 20, 11, 19, 13, 21, 14, 22, 16, 24, 15, 23, 17, 25]\<rparr>,
      \<lparr>shape = [2, 2, 4], elems = map Fin [0, 0, 2, 2, 1, 1, 3, 3, 0, 0, 2, 2, 1, 1, 3, 3]\<rparr>,
      \<lparr>shape = [2, 2, 4], elems = map Fin [0, 2, 0, 2, 0, 2, 0, 2, 1, 3, 1, 3, 1, 3, 1, 3]\<rparr>,
      \<lparr>shape = [2, 2, 4], elems = replicate 16 (Fin 0)\<rparr>,
      \<lparr>shape = [2, 2, 4], elems = replicate 16 (Fin 0)\<rparr>,
      \<lparr>shape = [2, 2, 4], elems = replicate 16 (Fin 0)\<rparr>,
      \<lparr>shape = [2, 2, 4], elems = replicate 16 (Fin 0)\<rparr>]"

definition example_point_x :: "float64 ndarray" where
  "example_point_x = \<lparr>shape = [2, 2], elems = map Fin [5, 5, 5, 5]\<rparr>"

definition example_corner_x :: "float64 ndarray" where
  "example_corner_x = \<lparr>shape = [2, 2], elems = [Fin 0, PosInf, PosInf, PosInf]\<rparr>"

text \<open>
  A destination grid of 2 by 2 pixels away from the source grid, at the coordinates 10
  and 11. A source grid at the edge of the projected disk: the coordinates of the example,
  but the bottom-right chunk has a single finite corner, its top-left one, and is infinite
  elsewhere; and its seven stacked arrays (as \<open>example_edge_stacked_eq\<close> below computes
  them).
\<close>

definition example_far_x :: "float64 ndarray" where
  "example_far_x = \<lparr>shape = [2, 2], elems = map Fin [10, 11, 10, 11]\<rparr>"

definition example_far_y :: "float64 ndarray" where
  "example_far_y = \<lparr>shape = [2, 2], elems = map Fin [10, 10, 11, 11]\<rparr>"

definition example_edge_x :: "float64 dask_array" where
  "example_edge_x = \<lparr>contents = \<lparr>shape = [4, 4],
       elems = [Fin 0, Fin 1, Fin 2, Fin 3, Fin 0, Fin 1, Fin 2, Fin 3,
                Fin 0, Fin 1, Fin 2, PosInf, Fin 0, Fin 1, PosInf, PosInf]\<rparr>,
     chunks = [[2, 2], [2, 2]]\<rparr>"

definition example_edge_y :: "float64 dask_array" where
  "example_edge_y = \<lparr>contents = \<lparr>shape = [4, 4],
       elems = [Fin 0, Fin 0, Fin 0, Fin 0, Fin 1, Fin 1, Fin 1, Fin 1,
                Fin 2, Fin 2, Fin 2, PosInf, Fin 3, Fin 3, PosInf, PosInf]\<rparr>,
     chunks = [[2, 2], [2, 2]]\<rparr>"

definition example_edge_stacked :: "float64 ndarray list" where
  "example_edge_stacked =
     [\<lparr>shape = [1, 2, 2, 4],
       elems = map Fin [10, 18, 12, 20, 11, 19, 13, 21, 14, 22, 16, 24, 15, 23, 17, 25]\<rparr>,
      \<lparr>shape = [2, 2, 4],
       elems = [Fin 0, Fin 0, Fin 2, Fin 2, Fin 1, Fin 1, Fin 3, PosInf,
                Fin 0, Fin 0, Fin 2, PosInf, Fin 1, Fin 1, Fin 3, PosInf]\<rparr>,
      \<lparr>shape = [2, 2, 4],
       elems = [Fin 0, Fin 2, Fin 0, Fin 2, Fin 0, Fin 2, Fin 0, PosInf,
                Fin 1, Fin 3, Fin 1, PosInf, Fin 1, Fin 3, Fin 1, PosInf]\<rparr>,
      \<lparr>shape = [2, 2, 4], elems = replicate 16 (Fin 0)\<rparr>,
      \<lparr>shape = [2, 2, 4], elems = replicate 16 (Fin 0)\<rparr>,
      \<lparr>shape = [2, 2, 4], elems = replicate 16 (Fin 0)\<rparr>,
      \<lparr>shape = [2, 2, 4], elems = replicate 16 (Fin 0)\<rparr>]"

section \<open>Index arithmetic\<close>

lemma length_concat_blocks:
  assumes "\<And>i. i < m \<Longrightarrow> length (f i) = b"
  shows "length (concat (map f [0..<m])) = m * b"
  using assms by (induction m) (simp_all add: algebra_simps)

lemma nth_concat_blocks:
  assumes "\<And>i. i < m \<Longrightarrow> length (f i) = b" and "i < m" and "j < b"
  shows "concat (map f [0..<m]) ! (i * b + j) = f i ! j"
  using assms
proof (induction m)
  case 0
  then show ?case by simp
next
  case (Suc m)
  have len: "length (concat (map f [0..<m])) = m * b"
    using Suc.prems(1) by (intro length_concat_blocks) simp
  show ?case
  proof (cases "i < m")
    case True
    have "i * b + j < m * b"
    proof -
      have "i * b + j < i * b + b" using Suc.prems(3) by simp
      also have "\<dots> = Suc i * b" by simp
      also have "\<dots> \<le> m * b" using True by (intro mult_le_mono1) simp
      finally show ?thesis .
    qed
    then show ?thesis
      using Suc.IH [OF _ True Suc.prems(3)] Suc.prems(1) len by (simp add: nth_append)
  next
    case False
    then have "i = m" using Suc.prems(2) by simp
    then show ?thesis using len by (simp add: nth_append)
  qed
qed

lemma ravel_append:
  "length ip = length pre \<Longrightarrow>
   ravel (pre @ post) (ip @ iq) = ravel pre ip * prod_list post + ravel post iq"
proof (induction pre ip rule: ravel.induct)
  case (1 d ds i ix)
  then show ?case by (simp add: algebra_simps)
qed simp_all

lemma ravel_less:
  "valid_index sh ix \<Longrightarrow> ravel sh ix < prod_list sh"
  unfolding valid_index_def
proof (induction sh ix rule: ravel.induct)
  case (1 d ds i ix)
  then have lt: "i < d" and rest: "ravel ds ix < prod_list ds" by simp_all
  have "i * prod_list ds + ravel ds ix < i * prod_list ds + prod_list ds"
    using rest by simp
  also have "\<dots> = Suc i * prod_list ds" by simp
  also have "\<dots> \<le> d * prod_list ds" using lt by (intro mult_le_mono1) simp
  finally show ?case by simp
qed simp_all

lemma for_each_map:
  "(\<And>x. x \<in> set xs \<Longrightarrow> f x = Inr (g x)) \<Longrightarrow> for_each f xs = Inr (map g xs)"
  by (induction xs) simp_all

section \<open>Reshape, take and split\<close>

lemma block_in_range:
  assumes "q < P" and "x < (n::nat)"
  shows "(q * n + x) * I + I \<le> P * n * I"
proof -
  have "q * n + x < q * n + n" using assms(2) by simp
  also have "\<dots> = Suc q * n" by simp
  also have "\<dots> \<le> P * n" using assms(1) by (intro mult_le_mono1) simp
  finally have "Suc (q * n + x) \<le> P * n" by simp
  then have "Suc (q * n + x) * I \<le> P * n * I" by (rule mult_le_mono1)
  then show ?thesis by (simp add: algebra_simps)
qed

lemma length_block:
  assumes "length es = P * n * I" and "q < P" and "x < n"
  shows "length (take I (drop ((q * n + x) * I) es)) = I"
  using block_in_range [OF assms(2,3), of I] assms(1) by simp

lemma nth_block:
  assumes "length es = P * n * I" and "q < P" and "x < n" and "i < I"
  shows "take I (drop ((q * n + x) * I) es) ! i = es ! ((q * n + x) * I + i)"
proof -
  have "(q * n + x) * I \<le> (q * n + x) * I + I" by simp
  also have "\<dots> \<le> P * n * I" by (rule block_in_range [OF assms(2,3)])
  finally have "(q * n + x) * I \<le> length es" using assms(1) by simp
  then show ?thesis using assms(4) by (simp add: nth_drop)
qed

lemma np_take_eq:
  assumes ax: "py_index axis (ndim a) = Inr (length pre)"
    and sh: "shape a = pre @ n # post" and x: "x < n"
  shows "np_take a x axis =
         Inr \<lparr>shape = pre @ post,
              elems = concat (map (\<lambda>q. take (prod_list post)
                        (drop ((q * n + x) * prod_list post) (elems a))) [0..<prod_list pre])\<rparr>"
  using assms by (simp add: np_take_def Let_def)

lemma np_take_props:
  assumes wf: "well_formed a"
    and ax: "py_index axis (ndim a) = Inr (length pre)"
    and sh: "shape a = pre @ n # post" and x: "x < n"
  shows "\<exists>r. np_take a x axis = Inr r \<and> shape r = pre @ post \<and> well_formed r \<and>
           (\<forall>q<prod_list pre. \<forall>i<prod_list post.
              elems r ! (q * prod_list post + i) = elems a ! ((q * n + x) * prod_list post + i))"
proof -
  let ?I = "prod_list post" and ?P = "prod_list pre"
  let ?f = "\<lambda>q. take ?I (drop ((q * n + x) * ?I) (elems a))"
  let ?r = "\<lparr>shape = pre @ post, elems = concat (map ?f [0..<?P])\<rparr>"
  have len: "length (elems a) = ?P * n * ?I"
    using wf sh by (simp add: well_formed_def)
  have blk: "\<And>q. q < ?P \<Longrightarrow> length (?f q) = ?I"
    using length_block [OF len _ x] by blast
  have eq: "np_take a x axis = Inr ?r" by (rule np_take_eq [OF ax sh x])
  have wfr: "well_formed ?r"
    using length_concat_blocks [of ?P ?f ?I, OF blk] by (simp add: well_formed_def)
  have el: "\<forall>q<?P. \<forall>i<?I. elems ?r ! (q * ?I + i) = elems a ! ((q * n + x) * ?I + i)"
  proof (intro allI impI)
    fix q i assume q: "q < ?P" and i: "i < ?I"
    have "concat (map ?f [0..<?P]) ! (q * ?I + i) = ?f q ! i"
      by (rule nth_concat_blocks [of ?P ?f ?I, OF blk q i])
    also have "\<dots> = elems a ! ((q * n + x) * ?I + i)"
      by (rule nth_block [OF len q x i])
    finally show "elems ?r ! (q * ?I + i) = elems a ! ((q * n + x) * ?I + i)" by simp
  qed
  show ?thesis using eq wfr el by (intro exI [of _ ?r]) simp
qed

lemma reshape_exact:
  assumes "prod_list new = size_of a"
  shows "reshape a (map Dim new) = Inr \<lparr>shape = new, elems = elems a\<rparr>"
proof -
  have f: "filter (\<lambda>d. d = Infer) (map Dim new) = []"
    by (induction new) simp_all
  have p: "map known_dim (map Dim new) = new"
    by (induction new) simp_all
  have m: "map (the_dim u) (map Dim new) = new" for u
    by (induction new) simp_all
  show ?thesis
    unfolding reshape_def Let_def f p m using assms by simp
qed

lemma reshape_infer:
  assumes "size_of a = prod_list pre * u * prod_list post"
    and "0 < prod_list pre * prod_list post"
  shows "reshape a (map Dim pre @ Infer # map Dim post) =
         Inr \<lparr>shape = pre @ u # post, elems = elems a\<rparr>"
proof -
  have f: "filter (\<lambda>d. d = Infer) (map Dim xs) = []" for xs
    by (induction xs) simp_all
  have p: "known_dim \<circ> Dim = id"
    by (rule ext) simp
  have m: "the_dim v \<circ> Dim = id" for v
    by (rule ext) simp
  let ?k = "prod_list pre * prod_list post"
  have sz: "size_of a = u * ?k" using assms(1) by (simp add: algebra_simps)
  have d: "size_of a div ?k = u" and r: "size_of a mod ?k = 0"
    using assms(2) by (simp_all add: sz)
  have k0: "?k \<noteq> 0" using assms(2) by simp
  have known: "prod_list (map known_dim (map Dim pre @ Infer # map Dim post)) = ?k"
    by (simp add: p)
  have unknown: "length (filter (\<lambda>d. d = Infer) (map Dim pre @ Infer # map Dim post)) = 1"
    by (simp add: f)
  have sh: "map (the_dim u) (map Dim pre @ Infer # map Dim post) = pre @ u # post"
    by (simp add: m)
  show ?thesis
    unfolding reshape_def Let_def known unknown using k0 r by (simp only: d sh) simp
qed

lemma valid_index_split:
  assumes "valid_index (pre @ d # post) ix"
  shows "\<exists>ip l iq. ix = ip @ l # iq \<and> length ip = length pre \<and> valid_index pre ip \<and>
           l < d \<and> valid_index post iq"
proof -
  from assms have "list_all2 (\<lambda>i d. i < d) ix (pre @ d # post)"
    by (simp add: valid_index_def)
  then obtain ip rest where ix: "ix = ip @ rest" and lp: "length ip = length pre"
    and a1: "list_all2 (\<lambda>i d. i < d) ip pre" and a2: "list_all2 (\<lambda>i d. i < d) rest (d # post)"
    by (auto simp: list_all2_append2)
  from a2 obtain l iq where rest: "rest = l # iq" and l: "l < d"
    and a3: "list_all2 (\<lambda>i d. i < d) iq post"
    by (auto simp: list_all2_Cons2)
  have "valid_index pre ip" using a1 lp by (simp add: valid_index_def)
  moreover have "valid_index post iq"
    using a3 by (simp add: valid_index_def list_all2_lengthD)
  ultimately show ?thesis using ix rest lp l by blast
qed

lemma valid_index_join:
  assumes "valid_index pre ip" and "l < d" and "valid_index post iq"
  shows "valid_index (pre @ d # post) (ip @ l # iq)"
  using assms by (simp add: valid_index_def list_all2_appendI)

lemma ravel_axis:
  assumes "length ip = length pre"
  shows "ravel (pre @ d # post) (ip @ l # iq) =
         ravel pre ip * (d * prod_list post) + (l * prod_list post + ravel post iq)"
  using ravel_append [OF assms, of "d # post" "l # iq"] by simp

lemma py_index_axis:
  assumes "py_index axis n = Inr ax"
  shows "ax < n" and "ax = nat (if axis < 0 then int n + axis else axis)"
    and "(if axis < 0 then int n + axis + 1 else axis + 1) = int ax + 1"
  using assms by (auto simp: py_index_def Let_def split: if_splits)

lemma py_index_nat: "k < n \<Longrightarrow> py_index (int k) n = Inr k"
  by (simp add: py_index_def)

lemma split_axis:
  assumes wf: "well_formed arr"
    and ax: "py_index axis (ndim arr) = Inr ax"
    and L: "shape arr ! ax = n * s" and n: "0 < n"
  shows "\<exists>pieces. split arr n axis = Inr pieces \<and> length pieces = n \<and>
           (\<forall>k<n. shape (pieces ! k) = (shape arr)[ax := s] \<and> well_formed (pieces ! k) \<and>
              (\<forall>ix. valid_index (shape (pieces ! k)) ix \<longrightarrow>
                 item (pieces ! k) ix = item arr (ix[ax := k * s + ix ! ax])))"
proof -
  let ?sh = "shape arr"
  define pre where "pre = take ax ?sh"
  define post where "post = drop (Suc ax) ?sh"
  let ?Q = "prod_list post" and ?P = "prod_list pre"
  have axlt: "ax < length ?sh" using py_index_axis(1) [OF ax] by (simp add: ndim_def)
  have lpre: "length pre = ax" using axlt by (simp add: pre_def)
  have sh: "?sh = pre @ (n * s) # post"
    unfolding pre_def post_def L [symmetric] by (rule id_take_nth_drop [OF axlt])
  have upd: "?sh[ax := s] = pre @ s # post"
    using lpre by (subst sh) (simp add: list_update_append)
  have slice_to: "py_slice_to ?sh axis = pre"
    using py_index_axis(2) [OF ax] by (simp add: py_slice_to_def pre_def ndim_def)
  have rest: "(if axis < 0 then int (length ?sh) + axis + 1 else axis + 1) = int ax + 1"
    using py_index_axis(3) [OF ax] unfolding ndim_def by (simp split: if_splits)
  have slice_from: "py_slice_from ?sh (int ax + 1) = post"
    by (simp add: py_slice_from_def post_def nat_add_distrib)
  let ?res = "\<lparr>shape = pre @ [n, s] @ post, elems = elems arr\<rparr>"
  have size: "prod_list (pre @ [n, s] @ post) = size_of arr"
    by (subst size_of_def, subst sh) (simp add: mult.assoc)
  have resh: "reshape arr (map Dim (pre @ [n, n * s div n] @ post)) = Inr ?res"
    using reshape_exact [OF size] n by simp
  have wfres: "well_formed ?res"
    using wf size by (simp add: well_formed_def size_of_def)
  have axres: "py_index (int ax) (ndim ?res) = Inr (length pre)"
    using py_index_nat [of ax "ndim ?res"] lpre by (simp add: ndim_def)
  have shres: "shape ?res = pre @ n # (s # post)" by simp
  define piece where "piece k = (SOME r. np_take ?res k (int ax) = Inr r)" for k
  have pk: "np_take ?res k (int ax) = Inr (piece k) \<and> shape (piece k) = pre @ s # post \<and>
            well_formed (piece k) \<and>
            (\<forall>q<?P. \<forall>i<s * ?Q. elems (piece k) ! (q * (s * ?Q) + i) =
                 elems arr ! ((q * n + k) * (s * ?Q) + i))" if "k < n" for k
  proof -
    from np_take_props [OF wfres axres shres that]
    obtain r where r: "np_take ?res k (int ax) = Inr r" "shape r = pre @ s # post"
      "well_formed r"
      "\<forall>q<?P. \<forall>i<prod_list (s # post).
          elems r ! (q * prod_list (s # post) + i) =
          elems ?res ! ((q * n + k) * prod_list (s # post) + i)"
      by auto
    have "piece k = r" using r(1) by (simp add: piece_def)
    then show ?thesis using r by simp
  qed
  have eq: "split arr n axis = Inr (map piece [0..<n])"
  proof -
    have "for_each (\<lambda>x. np_take ?res x (int ax)) [0..<n] = Inr (map piece [0..<n])"
      by (rule for_each_map) (use pk in simp)
    then show ?thesis
      using n ax resh by (simp add: split_def Let_def rest slice_to slice_from L)
  qed
  have props: "shape (piece k) = ?sh[ax := s] \<and> well_formed (piece k) \<and>
     (\<forall>ix. valid_index (shape (piece k)) ix \<longrightarrow>
        item (piece k) ix = item arr (ix[ax := k * s + ix ! ax]))" if k: "k < n" for k
  proof (intro conjI allI impI)
    show "shape (piece k) = ?sh[ax := s]" using pk [OF k] upd by simp
    show "well_formed (piece k)" using pk [OF k] by simp
  next
    fix ix assume "valid_index (shape (piece k)) ix"
    then have "valid_index (pre @ s # post) ix" using pk [OF k] by simp
    from valid_index_split [OF this]
    obtain ip l iq where ix: "ix = ip @ l # iq" and lip: "length ip = length pre"
      and vp: "valid_index pre ip" and l: "l < s" and vq: "valid_index post iq"
      by blast
    let ?q = "ravel pre ip" and ?r = "ravel post iq"
    have q: "?q < ?P" by (rule ravel_less [OF vp])
    have r: "?r < ?Q" by (rule ravel_less [OF vq])
    have i: "l * ?Q + ?r < s * ?Q"
    proof -
      have "l * ?Q + ?r < l * ?Q + ?Q" using r by simp
      also have "\<dots> = Suc l * ?Q" by simp
      also have "\<dots> \<le> s * ?Q" using l by (intro mult_le_mono1) simp
      finally show ?thesis .
    qed
    have nth: "ix ! ax = l" using ix lip lpre by (simp add: nth_append)
    have updix: "ix[ax := k * s + ix ! ax] = ip @ (k * s + l) # iq"
      using ix lip lpre nth by (simp add: list_update_append)
    have "item (piece k) ix = elems (piece k) ! (?q * (s * ?Q) + (l * ?Q + ?r))"
      using pk [OF k] ix ravel_axis [OF lip, of s post l iq] by (simp add: item_def)
    also have "\<dots> = elems arr ! ((?q * n + k) * (s * ?Q) + (l * ?Q + ?r))"
      using pk [OF k] q i by simp
    also have "(?q * n + k) * (s * ?Q) + (l * ?Q + ?r) =
               ?q * (n * s * ?Q) + ((k * s + l) * ?Q + ?r)"
      by (simp add: algebra_simps)
    also have "elems arr ! \<dots> = item arr (ip @ (k * s + l) # iq)"
      using ravel_axis [OF lip, of "n * s" post "k * s + l" iq] sh by (simp add: item_def)
    finally show "item (piece k) ix = item arr (ix[ax := k * s + ix ! ax])"
      using updix by simp
  qed
  show ?thesis
    using eq props by (intro exI [of _ "map piece [0..<n]"]) simp
qed

section \<open>Stacking the chunks along the tile axis\<close>

lemma split_axis_pre:
  assumes wf: "well_formed a"
    and sh: "shape a = pre @ (n * s) # post"
    and ax: "py_index axis (ndim a) = Inr (length pre)"
    and n: "0 < n"
  shows "\<exists>pieces. split a n axis = Inr pieces \<and> length pieces = n \<and>
           (\<forall>k<n. shape (pieces ! k) = pre @ s # post \<and> well_formed (pieces ! k) \<and>
              (\<forall>ip l iq. valid_index pre ip \<longrightarrow> l < s \<longrightarrow> valid_index post iq \<longrightarrow>
                 item (pieces ! k) (ip @ l # iq) = item a (ip @ (k * s + l) # iq)))"
proof -
  have L: "shape a ! length pre = n * s" using sh by simp
  from split_axis [OF wf ax L n]
  obtain pieces where eq: "split a n axis = Inr pieces" and len: "length pieces = n"
    and props: "\<forall>k<n. shape (pieces ! k) = (shape a)[length pre := s] \<and>
        well_formed (pieces ! k) \<and>
        (\<forall>ix. valid_index (shape (pieces ! k)) ix \<longrightarrow>
           item (pieces ! k) ix = item a (ix[length pre := k * s + ix ! length pre]))"
    by blast
  have upd: "(shape a)[length pre := s] = pre @ s # post"
    by (simp add: sh list_update_append)
  have "shape (pieces ! k) = pre @ s # post \<and> well_formed (pieces ! k) \<and>
        (\<forall>ip l iq. valid_index pre ip \<longrightarrow> l < s \<longrightarrow> valid_index post iq \<longrightarrow>
           item (pieces ! k) (ip @ l # iq) = item a (ip @ (k * s + l) # iq))"
    if k: "k < n" for k
  proof (intro conjI allI impI)
    show s1: "shape (pieces ! k) = pre @ s # post" using props k upd by simp
    show "well_formed (pieces ! k)" using props k by simp
    fix ip l iq
    assume vp: "valid_index pre ip" and l: "l < s" and vq: "valid_index post iq"
    have lip: "length ip = length pre" using vp by (simp add: valid_index_def)
    have v: "valid_index (shape (pieces ! k)) (ip @ l # iq)"
      unfolding s1 by (rule valid_index_join [OF vp l vq])
    have "item (pieces ! k) (ip @ l # iq) =
          item a ((ip @ l # iq)[length pre := k * s + (ip @ l # iq) ! length pre])"
      using props k v by blast
    also have "(ip @ l # iq)[length pre := k * s + (ip @ l # iq) ! length pre] =
               ip @ (k * s + l) # iq"
      using lip by (simp add: list_update_append nth_append)
    finally show "item (pieces ! k) (ip @ l # iq) = item a (ip @ (k * s + l) # iq)" .
  qed
  then show ?thesis using eq len by blast
qed

lemma take1_drop: "q < length xs \<Longrightarrow> take (Suc 0) (drop q xs) = [xs ! q]"
  by (simp add: take_Suc_conv_app_nth)

lemma concat_take1:
  "(\<And>m. m \<in> set layers \<Longrightarrow> q < length (elems m)) \<Longrightarrow>
   concat (map (\<lambda>m. take (Suc 0) (drop q (elems m))) layers) = map (\<lambda>m. elems m ! q) layers"
  by (induction layers) (simp_all add: take1_drop)

lemma np_stack_last:
  assumes ne: "layers \<noteq> []"
    and all: "\<And>m. m \<in> set layers \<Longrightarrow> shape m = sh \<and> well_formed m"
    and ax: "py_index axis (length sh + 1) = Inr (length sh)"
  shows "\<exists>st. np_stack layers axis = Inr st \<and> shape st = sh @ [length layers] \<and>
           well_formed st \<and>
           (\<forall>t<length layers. \<forall>ix. valid_index sh ix \<longrightarrow>
              item st (ix @ [t]) = item (layers ! t) ix)"
proof -
  let ?P = "prod_list sh" and ?T = "length layers"
  let ?f = "\<lambda>q. concat (map (\<lambda>m. take 1 (drop (q * 1) (elems m))) layers)"
  let ?g = "\<lambda>q. map (\<lambda>m. elems m ! q) layers"
  let ?st = "\<lparr>shape = sh @ [?T], elems = concat (map ?g [0..<?P])\<rparr>"
  obtain l ls where lay: "layers = l # ls" using ne by (cases layers) auto
  have shl: "shape l = sh" using all lay by simp
  have same: "\<not> list_ex (\<lambda>m. shape m \<noteq> shape l) ls"
    using all lay shl by (auto simp: list_ex_iff)
  have fg: "concat (map (\<lambda>m. take (Suc 0) (drop q (elems m))) layers) = ?g q"
    if "q < ?P" for q
  proof -
    have "q < length (elems m)" if "m \<in> set layers" for m
      using all [OF that] \<open>q < ?P\<close> by (simp add: well_formed_def)
    then show ?thesis by (rule concat_take1)
  qed
  have eq0: "np_stack layers axis =
             Inr \<lparr>shape = sh @ [?T], elems = concat (map ?f [0..<?P])\<rparr>"
    using same ax shl by (simp add: np_stack_def lay ndim_def Let_def)
  have "map ?f [0..<?P] = map ?g [0..<?P]"
    by (intro map_cong) (simp_all add: fg)
  then have eq: "np_stack layers axis = Inr ?st"
    by (simp only: eq0)
  have blk: "\<And>q. q < ?P \<Longrightarrow> length (?g q) = ?T" by simp
  have wfst: "well_formed ?st"
    using length_concat_blocks [of ?P ?g ?T, OF blk] by (simp add: well_formed_def)
  have el: "item ?st (ix @ [t]) = item (layers ! t) ix"
    if t: "t < ?T" and v: "valid_index sh ix" for t ix
  proof -
    have lix: "length ix = length sh" using v by (simp add: valid_index_def)
    have q: "ravel sh ix < ?P" by (rule ravel_less [OF v])
    have "ravel (sh @ [?T]) (ix @ [t]) = ravel sh ix * ?T + t"
      using ravel_append [OF lix, of "[?T]" "[t]"] by simp
    then have "item ?st (ix @ [t]) = concat (map ?g [0..<?P]) ! (ravel sh ix * ?T + t)"
      by (simp add: item_def)
    also have "\<dots> = ?g (ravel sh ix) ! t"
      by (rule nth_concat_blocks [of ?P ?g ?T, OF blk q t])
    also have "\<dots> = item (layers ! t) ix"
      using t all [of "layers ! t"] by (simp add: item_def)
    finally show ?thesis .
  qed
  show ?thesis using eq wfst el by (intro exI [of _ ?st]) simp
qed

lemma concat_map_nth_blocks:
  assumes "\<And>c. c < length xs \<Longrightarrow> length (g (xs ! c)) = b"
    and "c < length xs" and "r < b"
  shows "length (concat (map g xs)) = length xs * b"
    and "concat (map g xs) ! (c * b + r) = g (xs ! c) ! r"
proof -
  have m: "map g xs = map (\<lambda>c. g (xs ! c)) [0..<length xs]"
    by (rule nth_equalityI) simp_all
  show "length (concat (map g xs)) = length xs * b"
    unfolding m by (rule length_concat_blocks) (rule assms(1))
  show "concat (map g xs) ! (c * b + r) = g (xs ! c) ! r"
    unfolding m by (rule nth_concat_blocks [of "length xs" "\<lambda>c. g (xs ! c)" b]) (use assms in auto)
qed

lemma stack_via_split:
  fixes a :: "'a ndarray"
  assumes wf: "well_formed a"
    and sh: "shape a = pre @ [R * h, C * w]"
    and R: "0 < R" and C: "0 < C"
    and a1: "py_index axis1 (length pre + 2) = Inr (length pre + 1)"
    and a2: "py_index axis2 (length pre + 2) = Inr (length pre)"
    and a3: "py_index axis3 (length pre + 3) = Inr (length pre + 2)"
  shows "\<exists>st. (case split a C axis1 of
                 Inl e \<Rightarrow> Inl e
               | Inr cols \<Rightarrow>
                   (case for_each (\<lambda>col. split col R axis2) cols of
                      Inl e \<Rightarrow> Inl e
                    | Inr layers \<Rightarrow> np_stack (concat layers) axis3)) = Inr st \<and>
              shape st = pre @ [h, w, R * C] \<and> well_formed st \<and>
              (\<forall>ip i j r c. valid_index pre ip \<longrightarrow> i < h \<longrightarrow> j < w \<longrightarrow> r < R \<longrightarrow> c < C \<longrightarrow>
                 item st (ip @ [i, j, c * R + r]) = item a (ip @ [r * h + i, c * w + j]))"
proof -
  have sh1: "shape a = (pre @ [R * h]) @ (C * w) # []" using sh by simp
  have ax1: "py_index axis1 (ndim a) = Inr (length (pre @ [R * h]))"
    using a1 sh by (simp add: ndim_def)
  from split_axis_pre [OF wf sh1 ax1 C]
  obtain cols where cols: "split a C axis1 = Inr cols" and lcols: "length cols = C"
    and pcols: "\<forall>c<C. shape (cols ! c) = (pre @ [R * h]) @ w # [] \<and> well_formed (cols ! c) \<and>
        (\<forall>ip l iq. valid_index (pre @ [R * h]) ip \<longrightarrow> l < w \<longrightarrow> valid_index [] iq \<longrightarrow>
           item (cols ! c) (ip @ l # iq) = item a (ip @ (c * w + l) # iq))"
    by blast
  define g where "g col = (case split col R axis2 of Inr ps \<Rightarrow> ps | Inl e \<Rightarrow> [])"
    for col :: "'a ndarray"
  have pg: "split (cols ! c) R axis2 = Inr (g (cols ! c)) \<and> length (g (cols ! c)) = R \<and>
            (\<forall>r<R. shape (g (cols ! c) ! r) = pre @ h # [w] \<and> well_formed (g (cols ! c) ! r) \<and>
               (\<forall>ip l iq. valid_index pre ip \<longrightarrow> l < h \<longrightarrow> valid_index [w] iq \<longrightarrow>
                  item (g (cols ! c) ! r) (ip @ l # iq) = item (cols ! c) (ip @ (r * h + l) # iq)))"
    if c: "c < C" for c
  proof -
    have wfc: "well_formed (cols ! c)" and shc: "shape (cols ! c) = pre @ (R * h) # [w]"
      using pcols c by simp_all
    have ax2: "py_index axis2 (ndim (cols ! c)) = Inr (length pre)"
      using a2 shc by (simp add: ndim_def)
    from split_axis_pre [OF wfc shc ax2 R]
    obtain ps where ps: "split (cols ! c) R axis2 = Inr ps" "length ps = R"
      "\<forall>r<R. shape (ps ! r) = pre @ h # [w] \<and> well_formed (ps ! r) \<and>
         (\<forall>ip l iq. valid_index pre ip \<longrightarrow> l < h \<longrightarrow> valid_index [w] iq \<longrightarrow>
            item (ps ! r) (ip @ l # iq) = item (cols ! c) (ip @ (r * h + l) # iq))"
      by blast
    have "g (cols ! c) = ps" using ps(1) by (simp add: g_def)
    then show ?thesis using ps by simp
  qed
  have fe: "for_each (\<lambda>col. split col R axis2) cols = Inr (map g cols)"
  proof (rule for_each_map)
    fix x assume "x \<in> set cols"
    then obtain c where "c < C" "x = cols ! c" using lcols by (auto simp: in_set_conv_nth)
    then show "split x R axis2 = Inr (g x)" using pg by simp
  qed
  let ?layers = "concat (map g cols)"
  have lg: "\<And>c. c < length cols \<Longrightarrow> length (g (cols ! c)) = R" using pg lcols by simp
  have len: "length ?layers = C * R"
    using concat_map_nth_blocks(1) [of cols g R 0 0, OF lg] lcols C R by simp
  have nth: "?layers ! (c * R + r) = g (cols ! c) ! r" if "c < C" "r < R" for c r
    using concat_map_nth_blocks(2) [of cols g R c r, OF lg] that lcols by simp
  have "0 < length ?layers" unfolding len using C R by simp
  then have ne: "?layers \<noteq> []" by (metis length_greater_0_conv)
  have all: "shape m = pre @ [h, w] \<and> well_formed m" if "m \<in> set ?layers" for m
  proof -
    from that obtain xs where "xs \<in> set (map g cols)" "m \<in> set xs" by auto
    then obtain c where c: "c < C" and xs: "xs = g (cols ! c)"
      using lcols by (auto simp: in_set_conv_nth)
    then obtain r where "r < R" "m = g (cols ! c) ! r"
      using \<open>m \<in> set xs\<close> pg [OF c] by (auto simp: in_set_conv_nth)
    then show ?thesis using pg [OF c] by simp
  qed
  have ax3: "py_index axis3 (length (pre @ [h, w]) + 1) = Inr (length (pre @ [h, w]))"
    using a3 by (simp add: numeral_3_eq_3)
  from np_stack_last [OF ne all ax3]
  obtain st where st: "np_stack ?layers axis3 = Inr st" "shape st = (pre @ [h, w]) @ [length ?layers]"
    "well_formed st"
    "\<forall>t<length ?layers. \<forall>ix. valid_index (pre @ [h, w]) ix \<longrightarrow>
        item st (ix @ [t]) = item (?layers ! t) ix"
    by blast
  have el: "item st (ip @ [i, j, c * R + r]) = item a (ip @ [r * h + i, c * w + j])"
    if vp: "valid_index pre ip" and i: "i < h" and j: "j < w" and r: "r < R" and c: "c < C"
    for ip i j r c
  proof -
    have t: "c * R + r < length ?layers"
    proof -
      have "c * R + r < c * R + R" using r by simp
      also have "\<dots> = Suc c * R" by simp
      also have "\<dots> \<le> C * R" using c by (intro mult_le_mono1) simp
      finally show ?thesis using len by simp
    qed
    have v1: "valid_index (pre @ [h, w]) (ip @ [i, j])"
      using vp i j by (simp add: valid_index_def list_all2_appendI)
    have rh: "r * h + i < R * h"
    proof -
      have "r * h + i < r * h + h" using i by simp
      also have "\<dots> = Suc r * h" by simp
      also have "\<dots> \<le> R * h" using r by (intro mult_le_mono1) simp
      finally show ?thesis .
    qed
    have v2: "valid_index (pre @ [R * h]) (ip @ [r * h + i])"
      using vp rh by (simp add: valid_index_def list_all2_appendI)
    have vw: "valid_index [w] [j]" using j by (simp add: valid_index_def)
    have ve: "valid_index [] []" by (simp add: valid_index_def)
    have "item st (ip @ [i, j, c * R + r]) = item st ((ip @ [i, j]) @ [c * R + r])" by simp
    also have "\<dots> = item (?layers ! (c * R + r)) (ip @ [i, j])"
      using st(4) t v1 by blast
    also have "\<dots> = item (g (cols ! c) ! r) (ip @ i # [j])"
      using nth [OF c r] by simp
    also have "\<dots> = item (cols ! c) (ip @ (r * h + i) # [j])"
      using pg [OF c] r vp i vw by blast
    also have "\<dots> = item (cols ! c) ((ip @ [r * h + i]) @ j # [])" by simp
    also have "\<dots> = item a ((ip @ [r * h + i]) @ (c * w + j) # [])"
      using pcols c v2 j ve by blast
    finally show ?thesis by simp
  qed
  have shst: "shape st = pre @ [h, w, R * C]" using st(2) len by (simp add: mult.commute)
  show ?thesis
    using cols fe st(1) shst st(3) el by (intro exI [of _ st]) simp
qed

lemma for_each_cong:
  "(\<And>x. x \<in> set xs \<Longrightarrow> f x = g x) \<Longrightarrow> for_each f xs = for_each g xs"
proof (induction xs)
  case Nil
  then show ?case by simp
next
  case (Cons x xs)
  have fx: "f x = g x" using Cons.prems by simp
  have rec: "for_each f xs = for_each g xs" using Cons by simp
  show ?case unfolding for_each.simps fx rec ..
qed

lemma py_index_neg:
  assumes "0 < k" and "k \<le> n"
  shows "py_index (- int k) n = Inr (n - k)"
proof -
  have "int n + - int k = int (n - k)" using assms by simp
  then show ?thesis using assms by (simp add: py_index_def)
qed

lemma for_each_all2:
  "(\<And>x. x \<in> set xs \<Longrightarrow> \<exists>y. f x = Inr y \<and> P x y) \<Longrightarrow>
   \<exists>ys. for_each f xs = Inr ys \<and> list_all2 P xs ys"
proof (induction xs)
  case Nil
  then show ?case by simp
next
  case (Cons x xs)
  from Cons.prems [of x] obtain y where y: "f x = Inr y" "P x y" by auto
  from Cons.IH Cons.prems obtain ys where ys: "for_each f xs = Inr ys" "list_all2 P xs ys"
    by auto
  show ?case using y ys by (intro exI [of _ "y # ys"]) simp
qed

lemma hsplit_eq_split:
  assumes "shape a = [H, C * w]" and "0 < H" and "0 < C"
  shows "hsplit a C = split a C 1"
proof -
  have sz: "size_of a = prod_list [H, C] * w * prod_list []"
    using assms(1) by (simp add: size_of_def mult.assoc)
  have r1: "reshape a (map Dim [H, C] @ Infer # map Dim []) =
            Inr \<lparr>shape = [H, C] @ w # [], elems = elems a\<rparr>"
    by (rule reshape_infer [OF sz]) (use assms in simp)
  have "prod_list [H, C, w] = size_of a" using assms(1) by (simp add: size_of_def mult.assoc)
  from reshape_exact [OF this]
  have r2: "reshape a (map Dim [H, C, w]) = Inr \<lparr>shape = [H, C, w], elems = elems a\<rparr>" .
  have l: "hsplit a C = for_each (\<lambda>x. np_take \<lparr>shape = [H, C, w], elems = elems a\<rparr> x 1) [0..<C]"
    using r1 assms(1) by (simp add: hsplit_def)
  have r: "split a C 1 = for_each (\<lambda>x. np_take \<lparr>shape = [H, C, w], elems = elems a\<rparr> x 1) [0..<C]"
    using r2 assms by (simp add: split_def py_index_def ndim_def py_slice_to_def py_slice_from_def)
  show ?thesis by (simp only: l r)
qed

lemma vsplit_eq_split:
  assumes "shape a = [R * h, w]" and "0 < R" and "0 < w"
  shows "vsplit a R = split a R 0"
proof -
  have sz: "size_of a = prod_list [R] * h * prod_list [w]"
    using assms(1) by (simp add: size_of_def)
  have r1: "reshape a (map Dim [R] @ Infer # map Dim [w]) =
            Inr \<lparr>shape = [R] @ h # [w], elems = elems a\<rparr>"
    by (rule reshape_infer [OF sz]) (use assms in simp)
  have "prod_list [R, h, w] = size_of a" using assms(1) by (simp add: size_of_def)
  from reshape_exact [OF this]
  have r2: "reshape a (map Dim [R, h, w]) = Inr \<lparr>shape = [R, h, w], elems = elems a\<rparr>" .
  have l: "vsplit a R = for_each (\<lambda>x. np_take \<lparr>shape = [R, h, w], elems = elems a\<rparr> x 0) [0..<R]"
    using r1 assms(1) by (simp add: vsplit_def)
  have r: "split a R 0 = for_each (\<lambda>x. np_take \<lparr>shape = [R, h, w], elems = elems a\<rparr> x 0) [0..<R]"
    using r2 assms by (simp add: split_def py_index_def ndim_def py_slice_to_def py_slice_from_def)
  show ?thesis by (simp only: l r)
qed

lemma stack_chunks_2d:
  fixes a :: "'a ndarray"
  assumes wf: "well_formed a"
    and sh: "shape a = [R * h, C * w]"
    and R: "0 < R" and C: "0 < C" and h: "0 < h" and w: "0 < w"
  shows "\<exists>st. stack_chunks a C R = Inr st \<and> shape st = [h, w, R * C] \<and> well_formed st \<and>
           (\<forall>i j r c. i < h \<longrightarrow> j < w \<longrightarrow> r < R \<longrightarrow> c < C \<longrightarrow>
              item st [i, j, c * R + r] = item a [r * h + i, c * w + j])"
proof -
  have hs: "hsplit a C = split a C 1"
    by (rule hsplit_eq_split [OF sh]) (use R h C in simp_all)
  have sh1: "shape a = [R * h] @ (C * w) # []" using sh by simp
  have ax1: "py_index 1 (ndim a) = Inr (length [R * h])"
    using sh by (simp add: ndim_def py_index_def)
  from split_axis_pre [OF wf sh1 ax1 C]
  obtain cols where cols: "split a C 1 = Inr cols"
    and pcols: "length cols = C" "\<forall>c<C. shape (cols ! c) = [R * h] @ w # []"
    by blast
  have vs: "for_each (\<lambda>col. vsplit col R) cols = for_each (\<lambda>col. split col R 0) cols"
  proof (rule for_each_cong)
    fix x assume "x \<in> set cols"
    then obtain c where "c < C" "x = cols ! c" using pcols(1) by (auto simp: in_set_conv_nth)
    then have "shape x = [R * h, w]" using pcols(2) by simp
    then show "vsplit x R = split x R 0" by (rule vsplit_eq_split) (use R w in simp_all)
  qed
  have eq: "stack_chunks a C R =
        (case split a C 1 of
           Inl e \<Rightarrow> Inl e
         | Inr cols \<Rightarrow>
             (case for_each (\<lambda>col. split col R 0) cols of
                Inl e \<Rightarrow> Inl e
              | Inr layers \<Rightarrow> np_stack (concat layers) 2))"
    unfolding stack_chunks_def hs cols using vs by simp
  have sh0: "shape a = [] @ [R * h, C * w]" using sh by simp
  have a1: "py_index 1 (length ([] :: nat list) + 2) = Inr (length ([] :: nat list) + 1)"
    by (simp add: py_index_def)
  have a2: "py_index 0 (length ([] :: nat list) + 2) = Inr (length ([] :: nat list))"
    by (simp add: py_index_def)
  have a3: "py_index 2 (length ([] :: nat list) + 3) = Inr (length ([] :: nat list) + 2)"
    by (simp add: py_index_def)
  have ve: "valid_index [] []" by (simp add: valid_index_def)
  from stack_via_split [OF wf sh0 R C a1 a2 a3]
  obtain st where st: "stack_chunks a C R = Inr st" "shape st = [] @ [h, w, R * C]"
    "well_formed st"
    "\<forall>ip i j r c. valid_index [] ip \<longrightarrow> i < h \<longrightarrow> j < w \<longrightarrow> r < R \<longrightarrow> c < C \<longrightarrow>
       item st (ip @ [i, j, c * R + r]) = item a (ip @ [r * h + i, c * w + j])"
    unfolding eq by blast
  have "item st [i, j, c * R + r] = item a [r * h + i, c * w + j]"
    if "i < h" "j < w" "r < R" "c < C" for i j r c
    using st(4) ve that by fastforce
  then show ?thesis using st(1,2,3) by (intro exI [of _ st]) simp
qed


lemma div_lt_of_lt_mult: "(y::nat) < R * h \<Longrightarrow> y div h < R"
  by (simp add: less_mult_imp_div_less mult.commute)

lemma unstack_of_stacked:
  fixes a :: "'a ndarray"
  assumes wf: "well_formed a" and sh: "shape a = [R * h, C * w]"
    and h: "0 < h" and w: "0 < w"
    and shst: "shape st = [h, w, R * C]"
    and el: "\<forall>i j r c. i < h \<longrightarrow> j < w \<longrightarrow> r < R \<longrightarrow> c < C \<longrightarrow>
               item st [i, j, c * R + r] = item a [r * h + i, c * w + j]"
  shows "unstack_chunks R C st = a"
proof -
  let ?W = "C * w" and ?H = "R * h"
  let ?f = "\<lambda>y. map (\<lambda>x. item st [y mod h, x mod w, (x div w) * R + y div h]) [0..<?W]"
  have blk: "\<And>y. y < ?H \<Longrightarrow> length (?f y) = ?W" by simp
  have len: "length (concat (map ?f [0..<?H])) = ?H * ?W"
    by (rule length_concat_blocks [of ?H ?f ?W, OF blk])
  have lena: "length (elems a) = ?H * ?W" using wf sh by (simp add: well_formed_def)
  have "concat (map ?f [0..<?H]) = elems a"
  proof (rule nth_equalityI)
    show "length (concat (map ?f [0..<?H])) = length (elems a)" using len lena by simp
  next
    fix k assume "k < length (concat (map ?f [0..<?H]))"
    then have k: "k < ?H * ?W" using len by simp
    define y where "y = k div ?W"
    define x where "x = k mod ?W"
    have W: "0 < ?W" using k by (cases "?W = 0") simp_all
    have x: "x < ?W" using W by (simp add: x_def)
    have y: "y < ?H" unfolding y_def using k by (simp add: less_mult_imp_div_less)
    have kk: "k = y * ?W + x" unfolding x_def y_def by (rule div_mult_mod_eq [symmetric])
    have "concat (map ?f [0..<?H]) ! (y * ?W + x) = ?f y ! x"
      by (rule nth_concat_blocks [of ?H ?f ?W, OF blk y x])
    also have "\<dots> = item st [y mod h, x mod w, (x div w) * R + y div h]"
      using x by simp
    also have "\<dots> = item a [(y div h) * h + y mod h, (x div w) * w + x mod w]"
      using el h w div_lt_of_lt_mult [OF y] div_lt_of_lt_mult [OF x] by simp
    also have "\<dots> = item a [y, x]" by simp
    also have "\<dots> = elems a ! (y * ?W + x)" by (simp add: item_def sh)
    finally show "concat (map ?f [0..<?H]) ! k = elems a ! k" using kk by simp
  qed
  then have "unstack_chunks R C st = \<lparr>shape = [?H, ?W], elems = elems a\<rparr>"
    using shst by (simp add: unstack_chunks_def Let_def)
  also have "\<dots> = a" using sh by simp
  finally show ?thesis .
qed

lemma stacked_arrays:
  fixes arrays :: "'a ndarray list"
  assumes arrs: "list_all (\<lambda>a. well_formed a \<and> shape a = [R * h, C * w]) arrays"
    and lc: "2 \<le> length chnks" and cR: "length (chnks ! 0) = R" and cC: "length (chnks ! 1) = C"
    and R: "0 < R" and C: "0 < C" and h: "0 < h" and w: "0 < w"
  shows "\<exists>sts. reshape_arrays_in_stacked_chunks arrays chnks = Inr sts \<and>
           list_all2 (\<lambda>a st. shape st = [h, w, R * C] \<and> well_formed st \<and>
             (\<forall>i j r c. i < h \<longrightarrow> j < w \<longrightarrow> r < R \<longrightarrow> c < C \<longrightarrow>
                item st [i, j, c * R + r] = item a [r * h + i, c * w + j])) arrays sts"
proof -
  have eq: "reshape_arrays_in_stacked_chunks arrays chnks =
            for_each (\<lambda>array. stack_chunks array C R) arrays"
    using lc cR cC by (simp add: reshape_arrays_in_stacked_chunks_def Let_def)
  show ?thesis
    unfolding eq
  proof (rule for_each_all2)
    fix a assume "a \<in> set arrays"
    then have "well_formed a" "shape a = [R * h, C * w]"
      using arrs by (auto simp: list_all_iff)
    from stack_chunks_2d [OF this R C h w]
    show "\<exists>st. stack_chunks a C R = Inr st \<and> (shape st = [h, w, R * C] \<and> well_formed st \<and>
             (\<forall>i j r c. i < h \<longrightarrow> j < w \<longrightarrow> r < R \<longrightarrow> c < C \<longrightarrow>
                item st [i, j, c * R + r] = item a [r * h + i, c * w + j]))"
      by blast
  qed
qed

section \<open>The NaN-ignoring maximum\<close>

lemma fle_refl: "\<not> isnan a \<Longrightarrow> fle a a"
  by (cases a) simp_all

lemma fle_total: "\<not> isnan a \<Longrightarrow> \<not> isnan b \<Longrightarrow> fle a b \<or> fle b a"
  by (cases a; cases b) auto

lemma fle_trans: "fle a b \<Longrightarrow> fle b c \<Longrightarrow> fle a c"
  by (cases a; cases b; cases c) simp_all

lemma fle_antisym: "fle a b \<Longrightarrow> fle b a \<Longrightarrow> a = b"
  by (cases a; cases b) simp_all

lemma fmax_cases:
  "isnan (fmax a b) = (isnan a \<and> isnan b)"
  "fmax a b = a \<or> fmax a b = b"
  "\<not> isnan a \<Longrightarrow> fle a (fmax a b)"
  "\<not> isnan b \<Longrightarrow> fle b (fmax a b)"
  using fle_total [of a b] fle_refl [of a] fle_refl [of b]
  by (auto simp: fmax_def)

lemma foldl_fmax:
  "(isnan (foldl fmax a xs) = (isnan a \<and> list_all isnan xs)) \<and>
   (foldl fmax a xs = a \<or> foldl fmax a xs \<in> set xs) \<and>
   (\<not> isnan a \<longrightarrow> fle a (foldl fmax a xs)) \<and>
   (\<forall>v \<in> set xs. \<not> isnan v \<longrightarrow> fle v (foldl fmax a xs))"
proof (induction xs arbitrary: a)
  case Nil
  then show ?case by (simp add: fle_refl)
next
  case (Cons x xs)
  let ?b = "fmax a x" and ?r = "foldl fmax (fmax a x) xs"
  note IH = Cons.IH [of ?b]
  have nan: "isnan ?r = (isnan a \<and> list_all isnan (x # xs))"
    using IH fmax_cases(1) [of a x] by simp
  have mem: "?r = a \<or> ?r \<in> set (x # xs)"
    using IH fmax_cases(2) [of a x] by auto
  have ga: "fle a ?r" if "\<not> isnan a"
  proof -
    have "fle a ?b" using that by (rule fmax_cases(3))
    moreover have "fle ?b ?r" using IH fmax_cases(1) [of a x] that by simp
    ultimately show ?thesis by (rule fle_trans)
  qed
  have gx: "fle x ?r" if "\<not> isnan x"
  proof -
    have "fle x ?b" using that by (rule fmax_cases(4))
    moreover have "fle ?b ?r" using IH fmax_cases(1) [of a x] that by simp
    ultimately show ?thesis by (rule fle_trans)
  qed
  show ?case using nan mem ga gx IH by auto
qed

text \<open>The reduction of a non-empty list of tile values at one pixel.\<close>

lemma nanmax_list_props:
  assumes "vs \<noteq> []"
  shows "\<exists>r. nanmax_list vs = Inr r \<and>
           (isnan r = list_all isnan vs) \<and>
           (r \<in> set vs) \<and>
           (\<forall>v \<in> set vs. \<not> isnan v \<longrightarrow> fle v r)"
proof -
  obtain x xs where vs: "vs = x # xs" using assms by (cases vs) auto
  show ?thesis using foldl_fmax [of x xs] by (auto simp: vs)
qed

lemma nanmax_list_mset:
  assumes "mset vs = mset ws"
  shows "nanmax_list vs = nanmax_list ws"
proof (cases "vs = []")
  case True
  then show ?thesis using assms by simp
next
  case False
  then have wne: "ws \<noteq> []" using assms by auto
  have sets: "set vs = set ws" using assms by (rule mset_eq_setD)
  from nanmax_list_props [OF False] obtain r where
    r: "nanmax_list vs = Inr r" "isnan r = list_all isnan vs" "r \<in> set vs"
       "\<forall>v \<in> set vs. \<not> isnan v \<longrightarrow> fle v r" by blast
  from nanmax_list_props [OF wne] obtain t where
    t: "nanmax_list ws = Inr t" "isnan t = list_all isnan ws" "t \<in> set ws"
       "\<forall>v \<in> set ws. \<not> isnan v \<longrightarrow> fle v t" by blast
  have nn: "isnan r = isnan t" using r(2) t(2) sets by (simp add: list_all_iff)
  have "r = t"
  proof (cases "isnan r")
    case True
    then show ?thesis using nn by (cases r; cases t) simp_all
  next
    case False
    then have "fle r t" "fle t r" using nn r(3,4) t(3,4) sets by auto
    then show ?thesis by (rule fle_antisym)
  qed
  then show ?thesis using r(1) t(1) by simp
qed

lemma take_drop_block:
  assumes "length es = P * Z" and "q < P"
  shows "take Z (drop (q * Z) es) = map (\<lambda>z. es ! (q * Z + z)) [0..<Z]"
proof (rule nth_equalityI)
  have b: "q * Z + Z \<le> P * Z"
  proof -
    have "q * Z + Z = Suc q * Z" by simp
    also have "\<dots> \<le> P * Z" using assms(2) by (intro mult_le_mono1) simp
    finally show ?thesis .
  qed
  then show "length (take Z (drop (q * Z) es)) = length (map (\<lambda>z. es ! (q * Z + z)) [0..<Z])"
    using assms(1) by simp
  fix i assume "i < length (take Z (drop (q * Z) es))"
  then have i: "i < Z" by simp
  have "q * Z \<le> P * Z" using assms(2) by (intro mult_le_mono1) simp
  then have "q * Z \<le> length es" using assms(1) by simp
  then show "take Z (drop (q * Z) es) ! i = map (\<lambda>z. es ! (q * Z + z)) [0..<Z] ! i"
    using i by (simp add: nth_drop)
qed

lemma py_index_last: "py_index (- 1) (length (sh @ [Z])) = Inr (length sh)"
  by (simp add: py_index_def)

lemma nanmax_last_pixels:
  assumes wf: "well_formed res" and sh: "shape res = dst @ [Z]" and Z: "0 < Z"
  shows "\<exists>r. nanmax_last res = Inr r \<and> shape r = dst \<and> length (elems r) = prod_list dst \<and>
           (\<forall>q<prod_list dst. nanmax_list (pixel_values res q) = Inr (elems r ! q))"
proof -
  let ?P = "prod_list dst" and ?es = "elems res"
  have len: "length ?es = ?P * Z" using wf sh by (simp add: well_formed_def)
  define g where "g q = (case nanmax_list (pixel_values res q) of Inr v \<Rightarrow> v | Inl e \<Rightarrow> NaN)"
    for q
  have pv: "pixel_values res q = map (\<lambda>z. ?es ! (q * Z + z)) [0..<Z]" for q
    by (simp add: pixel_values_def sh)
  have blk: "take Z (drop (q * Z) ?es) = pixel_values res q" if "q < ?P" for q
    unfolding pv by (rule take_drop_block [OF len that])
  have ne: "pixel_values res q \<noteq> []" for q using Z by (simp add: pv)
  have gq: "nanmax_list (pixel_values res q) = Inr (g q)" for q
    using nanmax_list_props [OF ne [of q]] by (auto simp: g_def)
  have fe: "for_each (\<lambda>q. nanmax_list (take Z (drop (q * Z) ?es))) [0..<?P] = Inr (map g [0..<?P])"
    by (rule for_each_map) (simp add: blk gq)
  have eq: "nanmax_last res = Inr \<lparr>shape = dst, elems = map g [0..<?P]\<rparr>"
    using Z fe py_index_last [of dst Z] by (simp add: nanmax_last_def ndim_def sh Let_def)
  show ?thesis using eq gq by (intro exI [of _ "\<lparr>shape = dst, elems = map g [0..<?P]\<rparr>"]) simp
qed

lemma concat_map_take1:
  "(\<And>x. x \<in> set xs \<Longrightarrow> k x < length es) \<Longrightarrow>
   concat (map (\<lambda>x. take (Suc 0) (drop (k x) es)) xs) = map (\<lambda>x. es ! k x) xs"
  by (induction xs) (simp_all add: take1_drop)

lemma np_take_list_last:
  assumes wf: "well_formed a" and sh: "shape a = dst @ [Z]"
    and xs: "\<And>x. x \<in> set xs \<Longrightarrow> x < Z"
  shows "np_take_list a xs (- 1) =
         Inr \<lparr>shape = dst @ [length xs],
              elems = concat (map (\<lambda>q. map (\<lambda>x. elems a ! (q * Z + x)) xs) [0..<prod_list dst])\<rparr>"
proof -
  let ?P = "prod_list dst" and ?es = "elems a"
  let ?f = "\<lambda>q. concat (map (\<lambda>x. take (Suc 0) (drop (q * Z + x) ?es)) xs)"
  let ?g = "\<lambda>q. map (\<lambda>x. ?es ! (q * Z + x)) xs"
  have len: "length ?es = ?P * Z" using wf sh by (simp add: well_formed_def)
  have all: "list_all (\<lambda>x. x < Z) xs" using xs by (simp add: list_all_iff)
  have eq0: "np_take_list a xs (- 1) =
             Inr \<lparr>shape = dst @ [length xs], elems = concat (map ?f [0..<?P])\<rparr>"
    using all py_index_last [of dst Z] by (simp add: np_take_list_def ndim_def sh Let_def)
  have fg: "?f q = ?g q" if q: "q < ?P" for q
  proof (rule concat_map_take1)
    fix x assume "x \<in> set xs"
    then have "x < Z" by (rule xs)
    then have "q * Z + x < q * Z + Z" by simp
    also have "\<dots> = Suc q * Z" by simp
    also have "\<dots> \<le> ?P * Z" using q by (intro mult_le_mono1) simp
    finally show "q * Z + x < length ?es" using len by simp
  qed
  have "map ?f [0..<?P] = map ?g [0..<?P]"
    by (intro map_cong) (simp_all add: fg)
  then show ?thesis by (simp only: eq0)
qed

section \<open>Exceptions of the pipeline\<close>

lemma for_each_Inl:
  "for_each f xs = Inl e \<Longrightarrow> \<exists>x \<in> set xs. f x = Inl e"
  by (induction xs) (auto split: sum.splits)

lemma ni_py_index: "py_index i n = Inl e \<Longrightarrow> \<not> not_implemented e"
  by (auto simp: py_index_def Let_def split: if_splits)

lemma ni_reshape: "reshape a sh = Inl e \<Longrightarrow> \<not> not_implemented e"
  by (auto simp: reshape_def Let_def split: if_splits)

lemma ni_np_take: "np_take a x ax = Inl e \<Longrightarrow> \<not> not_implemented e"
  by (auto simp: np_take_def Let_def split: sum.splits if_splits dest: ni_py_index)

lemma ni_np_take_list: "np_take_list a xs ax = Inl e \<Longrightarrow> \<not> not_implemented e"
  by (auto simp: np_take_list_def Let_def split: sum.splits if_splits dest: ni_py_index)

lemma ni_np_stack: "np_stack ls ax = Inl e \<Longrightarrow> \<not> not_implemented e"
  by (auto simp: np_stack_def Let_def split: list.splits sum.splits if_splits dest: ni_py_index)

lemma ni_vsplit: "vsplit a n = Inl e \<Longrightarrow> \<not> not_implemented e"
  by (auto simp: vsplit_def split: sum.splits dest!: for_each_Inl dest: ni_reshape ni_np_take)

lemma ni_hsplit: "hsplit a n = Inl e \<Longrightarrow> \<not> not_implemented e"
  by (auto simp: hsplit_def split: list.splits sum.splits
      dest!: for_each_Inl dest: ni_reshape ni_np_take)

lemma ni_split: "split a n ax = Inl e \<Longrightarrow> \<not> not_implemented e"
  by (auto simp: split_def Let_def split: sum.splits if_splits
      dest!: for_each_Inl dest: ni_reshape ni_np_take ni_py_index)

lemma ni_stack_chunks: "stack_chunks a h v = Inl e \<Longrightarrow> \<not> not_implemented e"
  by (auto simp: stack_chunks_def split: sum.splits
      dest!: for_each_Inl dest: ni_hsplit ni_vsplit ni_np_stack)

lemma ni_stacked_chunks:
  "reshape_arrays_in_stacked_chunks as cs = Inl e \<Longrightarrow> \<not> not_implemented e"
  by (auto simp: reshape_arrays_in_stacked_chunks_def Let_def split: if_splits
      dest!: for_each_Inl dest: ni_stack_chunks)

lemma ni_stacked_3d: "reshape_to_stacked_3d d = Inl e \<Longrightarrow> \<not> not_implemented e"
  by (auto simp: reshape_to_stacked_3d_def Let_def split: sum.splits
      dest!: for_each_Inl dest: ni_split ni_np_stack ni_py_index)

lemma ni_corner: "corner a i j = Inl e \<Longrightarrow> \<not> not_implemented e"
  by (auto simp: corner_def split: list.splits sum.splits dest: ni_py_index)

lemma ni_get_corners: "get_corners x y = Inl e \<Longrightarrow> \<not> not_implemented e"
  by (auto simp: get_corners_def split: sum.splits dest!: for_each_Inl dest: ni_corner)

lemma ni_truth_value: "truth_value bs = Inl e \<Longrightarrow> \<not> not_implemented e"
  by (cases bs rule: truth_value.cases) auto

lemma ni_both_finite: "both_finite p = Inl e \<Longrightarrow> \<not> not_implemented e"
  by (auto simp: both_finite_def split: sum.splits if_splits dest: ni_truth_value)

lemma ni_keep_finite: "keep_finite ps = Inl e \<Longrightarrow> \<not> not_implemented e"
  by (induction ps) (auto split: sum.splits dest: ni_both_finite)

lemma ni_get_boundary: "get_boundary x y = Inl e \<Longrightarrow> \<not> not_implemented e"
  by (auto simp: get_boundary_def split: sum.splits prod.splits
      dest: ni_get_corners ni_keep_finite)

lemma ni_get_polygon:
  "raise_no_rank_error k g \<Longrightarrow> get_polygon g x y = Inl e \<Longrightarrow> \<not> not_implemented e"
  by (auto simp: get_polygon_def raise_no_rank_error_def split: sum.splits dest: ni_get_boundary)

lemma ni_np_split_last: "np_split_last a n = Inl e \<Longrightarrow> \<not> not_implemented e"
  by (auto simp: np_split_last_def Let_def split: sum.splits if_splits dest: ni_py_index)

lemma ni_take_mask: "take_mask a c ax = Inl e \<Longrightarrow> \<not> not_implemented e"
  by (auto simp: take_mask_def split: sum.splits if_splits dest: ni_py_index ni_np_take_list)

lemma ni_cover:
  "raise_no_rank_error k g \<Longrightarrow> cover g dp p = Inl e \<Longrightarrow> \<not> not_implemented e"
  by (auto simp: cover_def raise_no_rank_error_def split: sum.splits if_splits)

lemma ni_source_polygons:
  "raise_no_rank_error k g \<Longrightarrow> source_polygons g as = Inl e \<Longrightarrow> \<not> not_implemented e"
  by (auto simp: source_polygons_def Let_def split: list.splits sum.splits if_splits prod.splits
      dest!: for_each_Inl dest: ni_py_index ni_np_split_last ni_get_polygon)

lemma ni_remove_extra_chunks:
  "raise_no_rank_error k g \<Longrightarrow> remove_extra_chunks g as dx dy = Inl e \<Longrightarrow> \<not> not_implemented e"
  by (auto simp: remove_extra_chunks_def split: sum.splits
      dest!: for_each_Inl dest: ni_get_polygon ni_source_polygons ni_cover ni_take_mask)

lemma ni_gradient_resample_data:
  "raise_no_rank_error k g \<Longrightarrow>
   gradient_resample_data k d sx sy a b c e' dx dy m = Inl e \<Longrightarrow> \<not> not_implemented e"
  by (auto simp: gradient_resample_data_def raise_no_rank_error_def split: sum.splits if_splits)

lemma ni_tile_call:
  "raise_no_rank_error k g \<Longrightarrow> tile_call k as dx dy m z = Inl e \<Longrightarrow> \<not> not_implemented e"
  by (auto simp: tile_call_def split: sum.splits list.splits
      dest!: for_each_Inl dest: ni_np_take ni_gradient_resample_data)

lemma ni_blockwise:
  "raise_no_rank_error k g \<Longrightarrow> blockwise k as dx dy m = Inl e \<Longrightarrow> \<not> not_implemented e"
  by (auto simp: blockwise_def Let_def split: list.splits sum.splits if_splits
      dest!: for_each_Inl dest: ni_tile_call)

lemma ni_nanmax_list: "nanmax_list vs = Inl e \<Longrightarrow> \<not> not_implemented e"
  by (cases vs) auto

lemma ni_overlap_reduce: "overlap_reduce r = Inl e \<Longrightarrow> \<not> not_implemented e"
  by (auto simp: overlap_reduce_def nanmax_last_def Let_def split: sum.splits if_splits
      dest!: for_each_Inl dest: ni_py_index ni_nanmax_list)

lemma ni_np_gradient: "np_gradient diff f = Inl e \<Longrightarrow> \<not> not_implemented e"
  by (auto simp: np_gradient_def Let_def split: if_splits)

lemma ni_pipeline:
  assumes "raise_no_rank_error k g"
    and "ndim (contents data) = 2 \<or> ndim (contents data) = 3"
    and "parallel_gradient_search k diff g data src_x src_y dst_x dst_y method = Inl e"
  shows "\<not> not_implemented e"
  using assms(2,3)
  by (auto simp: parallel_gradient_search_def Let_def split: sum.splits prod.splits if_splits
      dest: ni_np_gradient ni_stacked_chunks ni_stacked_3d ni_overlap_reduce
        ni_remove_extra_chunks [OF assms(1)] ni_blockwise [OF assms(1)])

section \<open>Culling\<close>

lemma for_each_length: "for_each f xs = Inr ys \<Longrightarrow> length ys = length xs"
  by (induction xs arbitrary: ys) (auto split: sum.splits)

lemma concat_blocks_id:
  assumes "length es = P * Z"
  shows "concat (map (\<lambda>q. map (\<lambda>z. es ! (q * Z + z)) [0..<Z]) [0..<P]) = es"
proof (rule nth_equalityI)
  let ?g = "\<lambda>q. map (\<lambda>z. es ! (q * Z + z)) [0..<Z]"
  have blk: "\<And>q. q < P \<Longrightarrow> length (?g q) = Z" by simp
  show len: "length (concat (map ?g [0..<P])) = length es"
    using length_concat_blocks [of P ?g Z, OF blk] assms by simp
  fix k assume "k < length (concat (map ?g [0..<P]))"
  then have k: "k < P * Z" using len assms by simp
  then have Z: "0 < Z" by (cases "Z = 0") simp_all
  have q: "k div Z < P" using k by (simp add: less_mult_imp_div_less)
  have r: "k mod Z < Z" using Z by simp
  have kk: "k = k div Z * Z + k mod Z" by (rule div_mult_mod_eq [symmetric])
  have "concat (map ?g [0..<P]) ! (k div Z * Z + k mod Z) = ?g (k div Z) ! (k mod Z)"
    by (rule nth_concat_blocks [of P ?g Z, OF blk q r])
  also have "\<dots> = es ! (k div Z * Z + k mod Z)" using r by simp
  finally show "concat (map ?g [0..<P]) ! k = es ! k" using kk by simp
qed

lemma nonzero_less: "x \<in> set (nonzero cs) \<Longrightarrow> x < length cs"
  by (simp add: nonzero_def)

lemma take_mask_tiles:
  assumes wf: "well_formed a" and ne: "shape a \<noteq> []" and len: "length covers = last (shape a)"
  shows "\<exists>r. take_mask a covers (- 1) = Inr r \<and>
           shape r = butlast (shape a) @ [length (nonzero covers)] \<and> well_formed r \<and>
           tiles r = map (\<lambda>z. tiles a ! z) (nonzero covers)"
proof -
  let ?pre = "butlast (shape a)" and ?Z = "last (shape a)"
  let ?P = "prod_list ?pre" and ?es = "elems a" and ?xs = "nonzero covers"
  let ?K = "length ?xs"
  let ?g = "\<lambda>q. map (\<lambda>x. ?es ! (q * ?Z + x)) ?xs"
  let ?r = "\<lparr>shape = ?pre @ [?K], elems = concat (map ?g [0..<?P])\<rparr>"
  have sh: "shape a = ?pre @ [?Z]" using ne by simp
  have xs: "\<And>x. x \<in> set ?xs \<Longrightarrow> x < ?Z" using nonzero_less len by fastforce
  have tl: "np_take_list a ?xs (- 1) = Inr ?r"
    by (rule np_take_list_last [OF wf sh xs])
  have ax: "py_index (- 1) (ndim a) = Inr (length (shape a) - 1)"
    using py_index_neg [of 1 "length (shape a)"] ne by (simp add: ndim_def Suc_leI)
  have nth: "shape a ! (length (shape a) - 1) = ?Z" using ne by (simp add: last_conv_nth)
  have tm: "take_mask a covers (- 1) = Inr ?r"
    unfolding take_mask_def ax using tl len nth by simp
  have blk: "\<And>q. q < ?P \<Longrightarrow> length (?g q) = ?K" by simp
  have wfr: "well_formed ?r"
    using length_concat_blocks [of ?P ?g ?K, OF blk] by (simp add: well_formed_def)
  have "tiles ?r = map (\<lambda>k. map (\<lambda>q. concat (map ?g [0..<?P]) ! (q * ?K + k)) [0..<?P]) [0..<?K]"
    by (simp add: tiles_def Let_def)
  also have "\<dots> = map (\<lambda>k. map (\<lambda>q. ?es ! (q * ?Z + ?xs ! k)) [0..<?P]) [0..<?K]"
  proof (intro map_cong refl)
    fix k q assume "k \<in> set [0..<?K]" "q \<in> set [0..<?P]"
    then have k: "k < ?K" and q: "q < ?P" by simp_all
    have "concat (map ?g [0..<?P]) ! (q * ?K + k) = ?g q ! k"
      by (rule nth_concat_blocks [of ?P ?g ?K, OF blk q k])
    then show "concat (map ?g [0..<?P]) ! (q * ?K + k) = ?es ! (q * ?Z + ?xs ! k)"
      using k by simp
  qed
  also have "\<dots> = map (\<lambda>k. tiles a ! (?xs ! k)) [0..<?K]"
  proof (intro map_cong refl)
    fix k assume "k \<in> set [0..<?K]"
    then have "?xs ! k < ?Z" using xs by simp
    then show "map (\<lambda>q. ?es ! (q * ?Z + ?xs ! k)) [0..<?P] = tiles a ! (?xs ! k)"
      by (simp add: tiles_def Let_def)
  qed
  also have "\<dots> = map (\<lambda>z. tiles a ! z) ?xs"
    by (intro nth_equalityI) simp_all
  finally have "tiles ?r = map (\<lambda>z. tiles a ! z) ?xs" .
  then show ?thesis using tm wfr by (intro exI [of _ ?r]) simp
qed

lemma nonzero_all_true: "nonzero (map (\<lambda>p. True) ps) = [0..<length ps]"
  by (simp add: nonzero_def)

lemma take_mask_all:
  assumes wf: "well_formed a" and ne: "shape a \<noteq> []" and len: "length ps = last (shape a)"
  shows "take_mask a (map (\<lambda>p. True) ps) (- 1) = Inr a"
proof -
  let ?pre = "butlast (shape a)" and ?Z = "last (shape a)"
  let ?P = "prod_list ?pre" and ?es = "elems a"
  have sh: "shape a = ?pre @ [?Z]" using ne by simp
  have lenes: "length ?es = ?P * ?Z"
    using wf by (subst (asm) well_formed_def, subst (asm) sh) simp
  have "np_take_list a [0..<?Z] (- 1) =
        Inr \<lparr>shape = ?pre @ [length [0..<?Z]],
             elems = concat (map (\<lambda>q. map (\<lambda>x. ?es ! (q * ?Z + x)) [0..<?Z]) [0..<?P])\<rparr>"
    by (rule np_take_list_last [OF wf sh]) simp
  also have "\<dots> = Inr \<lparr>shape = shape a, elems = ?es\<rparr>"
    using concat_blocks_id [OF lenes] sh by simp
  finally have tl: "np_take_list a [0..<?Z] (- 1) = Inr a" by simp
  have ax: "py_index (- 1) (ndim a) = Inr (length (shape a) - 1)"
    using py_index_neg [of 1 "length (shape a)"] ne by (simp add: ndim_def Suc_leI)
  have nth: "shape a ! (length (shape a) - 1) = ?Z" using ne by (simp add: last_conv_nth)
  show ?thesis
    unfolding take_mask_def ax using tl len nth by (simp add: nonzero_all_true)
qed

lemma np_split_last_length: "np_split_last a n = Inr ps \<Longrightarrow> length ps = n"
  by (auto simp: np_split_last_def Let_def split: sum.splits if_splits)

lemma source_polygons_length:
  assumes "source_polygons g arrays = Inr polys"
  shows "arrays \<noteq> [] \<and> shape (hd arrays) \<noteq> [] \<and> length polys = last (shape (hd arrays))"
proof -
  from assms obtain a0 rest where a: "arrays = a0 # rest"
    by (cases arrays) (auto simp: source_polygons_def)
  from assms a obtain ax where ax: "py_index (- 1) (ndim a0) = Inr ax"
    by (auto simp: source_polygons_def split: sum.splits)
  then have ne: "shape a0 \<noteq> []" by (auto simp: py_index_def ndim_def split: if_splits)
  have axv: "ax = length (shape a0) - 1"
    using ax by (auto simp: py_index_def ndim_def split: if_splits)
  have last: "shape a0 ! ax = last (shape a0)" using ne axv by (simp add: last_conv_nth)
  from assms a ax obtain sx sy where
    sx: "np_split_last (arrays ! 1) (shape a0 ! ax) = Inr sx" and
    sy: "np_split_last (arrays ! 2) (shape a0 ! ax) = Inr sy" and
    fe: "for_each (\<lambda>(x, y). get_polygon g x y) (zip sx sy) = Inr polys"
    by (auto simp: source_polygons_def Let_def split: sum.splits if_splits)
  have "length polys = length (zip sx sy)" using fe by (rule for_each_length)
  also have "\<dots> = shape a0 ! ax"
    using np_split_last_length [OF sx] np_split_last_length [OF sy] by simp
  finally show ?thesis using a ne last by simp
qed

lemma example_stacked_eq:
  "(case np_gradient zero_differences example_x of
      Inl e \<Rightarrow> Inl e
    | Inr (gxl, gxp) \<Rightarrow>
        (case np_gradient zero_differences example_y of
           Inl e \<Rightarrow> Inl e
         | Inr (gyl, gyp) \<Rightarrow>
             (case reshape_arrays_in_stacked_chunks
                     [contents example_x, contents example_y, gxl, gxp, gyl, gyp]
                     (chunks example_x) of
                Inl e \<Rightarrow> Inl e
              | Inr arrays \<Rightarrow>
                  (case reshape_to_stacked_3d (newaxis_front example_data) of
                     Inl e \<Rightarrow> Inl e
                   | Inr stacked \<Rightarrow> Inr (stacked # arrays))))) = Inr example_stacked"
  by code_simp

lemma example_polys:
  "get_polygon grid_geometry example_dst_x example_dst_y = Inr [(0, 0), (1, 0), (1, 1), (0, 1)]"
  "source_polygons grid_geometry example_stacked =
     Inr [[(0, 0), (1, 0), (1, 1), (0, 1)], [(0, 2), (1, 2), (1, 3), (0, 3)],
          [(2, 0), (3, 0), (3, 1), (2, 1)], [(2, 2), (3, 2), (3, 3), (2, 3)]]"
  by code_simp+


lemma example_edge_stacked_eq:
  "(case np_gradient zero_differences example_edge_x of
      Inl e \<Rightarrow> Inl e
    | Inr (gxl, gxp) \<Rightarrow>
        (case np_gradient zero_differences example_edge_y of
           Inl e \<Rightarrow> Inl e
         | Inr (gyl, gyp) \<Rightarrow>
             (case reshape_arrays_in_stacked_chunks
                     [contents example_edge_x, contents example_edge_y, gxl, gxp, gyl, gyp]
                     (chunks example_edge_x) of
                Inl e \<Rightarrow> Inl e
              | Inr arrays \<Rightarrow>
                  (case reshape_to_stacked_3d (newaxis_front example_data) of
                     Inl e \<Rightarrow> Inl e
                   | Inr stacked \<Rightarrow> Inr (stacked # arrays))))) = Inr example_edge_stacked"
  by code_simp

text \<open>The tiles of the coordinates at the edge, and the boundary of the last of them.\<close>

lemma example_edge_tiles:
  "np_split_last (example_edge_stacked ! 1) 4 =
     Inr [\<lparr>shape = [2, 2, 1], elems = [Fin 0, Fin 1, Fin 0, Fin 1]\<rparr>,
          \<lparr>shape = [2, 2, 1], elems = [Fin 0, Fin 1, Fin 0, Fin 1]\<rparr>,
          \<lparr>shape = [2, 2, 1], elems = [Fin 2, Fin 3, Fin 2, Fin 3]\<rparr>,
          \<lparr>shape = [2, 2, 1], elems = [Fin 2, PosInf, PosInf, PosInf]\<rparr>]"
  "np_split_last (example_edge_stacked ! 2) 4 =
     Inr [\<lparr>shape = [2, 2, 1], elems = [Fin 0, Fin 0, Fin 1, Fin 1]\<rparr>,
          \<lparr>shape = [2, 2, 1], elems = [Fin 2, Fin 2, Fin 3, Fin 3]\<rparr>,
          \<lparr>shape = [2, 2, 1], elems = [Fin 0, Fin 0, Fin 1, Fin 1]\<rparr>,
          \<lparr>shape = [2, 2, 1], elems = [Fin 2, PosInf, PosInf, PosInf]\<rparr>]"
  "get_boundary \<lparr>shape = [2, 2, 1], elems = [Fin 2, PosInf, PosInf, PosInf]\<rparr>
                \<lparr>shape = [2, 2, 1], elems = [Fin 2, PosInf, PosInf, PosInf]\<rparr> =
     Inr [(Fin 2, Fin 2)]"
  by code_simp+

lemma cover_eq:
  assumes "area g dp = 0 \<or> (\<exists>b. intersects g dp p = Inr b) \<or> intersects g dp p = Inl TopologicalError"
  shows "cover g dp p = Inr (area g dp = 0 \<or> intersects g dp p \<noteq> Inr False)"
  using assms by (auto simp: cover_def)

lemma remove_with_covers:
  assumes dp: "get_polygon g dst_x dst_y = Inr dp"
    and sp: "source_polygons g arrays = Inr polys"
    and cv: "for_each (cover g dp) polys = Inr covers"
    and arrs: "list_all (\<lambda>a. well_formed a \<and> shape a \<noteq> [] \<and> last (shape a) = length polys) arrays"
  shows "\<exists>res. remove_extra_chunks g arrays dst_x dst_y = Inr res \<and>
           list_all2 (\<lambda>a r. shape r = butlast (shape a) @ [length (nonzero covers)] \<and>
                        well_formed r \<and> tiles r = map (\<lambda>z. tiles a ! z) (nonzero covers))
             arrays res"
proof -
  have lc: "length covers = length polys" using cv by (rule for_each_length)
  have eq: "remove_extra_chunks g arrays dst_x dst_y =
            for_each (\<lambda>arr. take_mask arr covers (- 1)) arrays"
    by (simp add: remove_extra_chunks_def dp sp cv)
  show ?thesis
    unfolding eq
  proof (rule for_each_all2)
    fix a assume "a \<in> set arrays"
    then have a: "well_formed a" "shape a \<noteq> []" "length covers = last (shape a)"
      using arrs lc by (auto simp: list_all_iff)
    from take_mask_tiles [OF a]
    show "\<exists>r. take_mask a covers (- 1) = Inr r \<and>
            (shape r = butlast (shape a) @ [length (nonzero covers)] \<and> well_formed r \<and>
             tiles r = map (\<lambda>z. tiles a ! z) (nonzero covers))"
      by blast
  qed
qed

lemma nonzero_map: "nonzero (map f ps) = filter (\<lambda>z. f (ps ! z)) [0..<length ps]"
  unfolding nonzero_def by (rule filter_cong) simp_all

lemma remove_kept:
  assumes dp: "get_polygon g dst_x dst_y = Inr dp"
    and sp: "source_polygons g arrays = Inr polys"
    and arrs: "list_all (\<lambda>a. well_formed a \<and> shape a \<noteq> [] \<and> last (shape a) = length polys) arrays"
    and ok: "area g dp = 0 \<or>
             list_all (\<lambda>p. (\<exists>b. intersects g dp p = Inr b) \<or>
                            intersects g dp p = Inl TopologicalError) polys"
  shows "\<exists>res. remove_extra_chunks g arrays dst_x dst_y = Inr res \<and> length res = length arrays \<and>
           (\<forall>n<length arrays.
              well_formed (res ! n) \<and>
              shape (res ! n) = butlast (shape (arrays ! n)) @
                [length (filter (\<lambda>z. area g dp = 0 \<or> intersects g dp (polys ! z) \<noteq> Inr False)
                           [0..<length polys])] \<and>
              tiles (res ! n) =
                map (\<lambda>z. tiles (arrays ! n) ! z)
                  (filter (\<lambda>z. area g dp = 0 \<or> intersects g dp (polys ! z) \<noteq> Inr False)
                     [0..<length polys]))"
proof -
  let ?c = "\<lambda>p. area g dp = 0 \<or> intersects g dp p \<noteq> Inr False"
  have cv: "for_each (cover g dp) polys = Inr (map ?c polys)"
  proof (rule for_each_map)
    fix p assume "p \<in> set polys"
    then have "area g dp = 0 \<or> (\<exists>b. intersects g dp p = Inr b) \<or>
               intersects g dp p = Inl TopologicalError"
      using ok by (auto simp: list_all_iff)
    then show "cover g dp p = Inr (?c p)" by (rule cover_eq)
  qed
  from remove_with_covers [OF dp sp cv arrs]
  obtain res where res: "remove_extra_chunks g arrays dst_x dst_y = Inr res"
    and all2: "list_all2 (\<lambda>a r. shape r = butlast (shape a) @ [length (nonzero (map ?c polys))] \<and>
                        well_formed r \<and> tiles r = map (\<lambda>z. tiles a ! z) (nonzero (map ?c polys)))
             arrays res"
    by blast
  have len: "length res = length arrays" using all2 by (simp add: list_all2_lengthD)
  show ?thesis
    using res len all2 unfolding nonzero_map
    by (intro exI [of _ res]) (simp add: list_all2_conv_all_nth)
qed

lemma filter_index:
  assumes "z < Z" and "P z"
  shows "\<exists>k<length (filter P [0..<Z]). filter P [0..<Z] ! k = z"
proof -
  have "z \<in> set (filter P [0..<Z])" using assms by simp
  then show ?thesis by (simp only: in_set_conv_nth)
qed

section \<open>Shapes along the pipeline\<close>

lemma for_each_nth:
  "for_each f xs = Inr ys \<Longrightarrow> n < length xs \<Longrightarrow> f (xs ! n) = Inr (ys ! n)"
proof (induction xs arbitrary: ys n)
  case Nil
  then show ?case by simp
next
  case (Cons x xs)
  then show ?case by (cases n) (auto split: sum.splits)
qed

lemma reshape_shape: "reshape a (map Dim xs) = Inr r \<Longrightarrow> shape r = xs"
proof -
  assume r: "reshape a (map Dim xs) = Inr r"
  have f: "filter (\<lambda>d. d = Infer) (map Dim xs) = []" by (induction xs) simp_all
  have m: "the_dim u \<circ> Dim = id" for u by (rule ext) simp
  show ?thesis using r unfolding reshape_def Let_def f by (auto simp: m split: if_splits)
qed

lemma np_take_shape:
  "np_take a x axis = Inr r \<Longrightarrow> py_index axis (ndim a) = Inr ax \<Longrightarrow>
   shape r = take ax (shape a) @ drop (Suc ax) (shape a)"
  by (auto simp: np_take_def Let_def split: if_splits)

lemma split_shape:
  assumes "split a n axis = Inr pieces" and "py_index axis (ndim a) = Inr ax"
    and "p \<in> set pieces"
  shows "shape p = (shape a)[ax := shape a ! ax div n]"
proof -
  let ?sh = "shape a"
  have axlt: "ax < length ?sh" using py_index_axis(1) [OF assms(2)] by (simp add: ndim_def)
  have slice_to: "py_slice_to ?sh axis = take ax ?sh"
    using py_index_axis(2) [OF assms(2)] by (simp add: py_slice_to_def ndim_def)
  have rest: "(if axis < 0 then int (length ?sh) + axis + 1 else axis + 1) = int ax + 1"
    using py_index_axis(3) [OF assms(2)] unfolding ndim_def by (simp split: if_splits)
  have slice_from: "py_slice_from ?sh (int ax + 1) = drop (Suc ax) ?sh"
    by (simp add: py_slice_from_def nat_add_distrib)
  let ?new = "take ax ?sh @ [n, ?sh ! ax div n] @ drop (Suc ax) ?sh"
  from assms(1,2) obtain res where
    res: "reshape a (map Dim ?new) = Inr res"
    and fe: "for_each (\<lambda>x. np_take res x (int ax)) [0..<n] = Inr pieces"
    by (auto simp: split_def Let_def rest slice_to slice_from split: if_splits sum.splits)
  have shres: "shape res = ?new" using res by (rule reshape_shape)
  from assms(3) obtain i where i: "i < length pieces" "p = pieces ! i"
    by (auto simp: in_set_conv_nth)
  have len: "length pieces = n" using for_each_length [OF fe] by simp
  have "np_take res ([0..<n] ! i) (int ax) = Inr (pieces ! i)"
    using for_each_nth [OF fe, of i] i len by simp
  moreover have "py_index (int ax) (ndim res) = Inr ax"
    using axlt by (intro py_index_nat) (simp add: ndim_def shres)
  ultimately have "shape p = take ax (shape res) @ drop (Suc ax) (shape res)"
    using i(2) np_take_shape by blast
  also have "\<dots> = take ax ?sh @ (?sh ! ax div n) # drop (Suc ax) ?sh"
    using axlt by (simp add: shres)
  also have "\<dots> = ?sh[ax := ?sh ! ax div n]"
    using axlt by (simp add: upd_conv_take_nth_drop)
  finally show ?thesis .
qed

lemma np_stack_shape:
  "np_stack layers axis = Inr st \<Longrightarrow>
   \<exists>l ax. l \<in> set layers \<and> py_index axis (ndim l + 1) = Inr ax \<and>
          shape st = take ax (shape l) @ [length layers] @ drop ax (shape l)"
  by (cases layers) (auto simp: np_stack_def Let_def split: if_splits sum.splits)

lemma stacked_3d_shape:
  assumes "reshape_to_stacked_3d d = Inr st" and "shape (contents d) = [B, H, W]"
  shows "\<exists>h w T. shape st = [B, h, w, T]"
proof -
  from assms(1) obtain x_fac y_fac cols layers where
    cols: "split (contents d) x_fac (- 1) = Inr cols"
    and fe: "for_each (\<lambda>col. split col y_fac (- 2)) cols = Inr layers"
    and st: "np_stack (concat layers) (- 1) = Inr st"
    by (auto simp: reshape_to_stacked_3d_def Let_def split: sum.splits)
  have a1: "py_index (- 1) (ndim (contents d)) = Inr 2"
    by (simp add: ndim_def assms(2) py_index_def)
  have shc: "shape c = [B, H, W div x_fac]" if "c \<in> set cols" for c
    using split_shape [OF cols a1 that] by (simp add: assms(2))
  have shl: "shape l = [B, H div y_fac, W div x_fac]" if "l \<in> set (concat layers)" for l
  proof -
    from that obtain ps where ps: "ps \<in> set layers" "l \<in> set ps" by auto
    then obtain i where i: "i < length layers" "ps = layers ! i" by (auto simp: in_set_conv_nth)
    have li: "i < length cols" using i for_each_length [OF fe] by simp
    have sp: "split (cols ! i) y_fac (- 2) = Inr ps" using for_each_nth [OF fe li] i by simp
    have c: "shape (cols ! i) = [B, H, W div x_fac]" using shc li by simp
    have a2: "py_index (- 2) (ndim (cols ! i)) = Inr 1" by (simp add: ndim_def c py_index_def)
    show ?thesis using split_shape [OF sp a2 ps(2)] by (simp add: c)
  qed
  from np_stack_shape [OF st] obtain l ax where
    l: "l \<in> set (concat layers)" "py_index (- 1) (ndim l + 1) = Inr ax"
       "shape st = take ax (shape l) @ [length (concat layers)] @ drop ax (shape l)"
    by blast
  have "ax = 3" using l(2) shl [OF l(1)] by (simp add: ndim_def py_index_def)
  then show ?thesis using l(3) shl [OF l(1)] by simp
qed

lemma take_mask_shape:
  "take_mask a covers (- 1) = Inr r \<Longrightarrow> shape a = [B, h, w, T] \<Longrightarrow> \<exists>K. shape r = [B, h, w, K]"
  by (auto simp: take_mask_def np_take_list_def ndim_def py_index_def Let_def split: if_splits)

lemma remove_extra_chunks_hd:
  assumes "remove_extra_chunks g (a # as) dst_x dst_y = Inr kept"
  shows "\<exists>covers r rs. kept = r # rs \<and> take_mask a covers (- 1) = Inr r"
  using assms
  by (auto simp: remove_extra_chunks_def split: sum.splits)

lemma blockwise_shape:
  "blockwise k (d # cs) dst_x dst_y m = Inr res \<Longrightarrow>
   shape res = [shape d ! 0, shape dst_x ! 0, shape dst_x ! 1, shape d ! 3] \<and> ndim dst_x = 2"
  by (auto simp: blockwise_def Let_def split: if_splits sum.splits)

lemma overlap_reduce_shape:
  "overlap_reduce res = Inr out \<Longrightarrow> shape res = [B, M, N, Z] \<Longrightarrow>
   shape out = filter (\<lambda>d. d \<noteq> 1) [B, M, N]"
  by (auto simp: overlap_reduce_def nanmax_last_def squeeze_def ndim_def py_index_def Let_def
      split: if_splits sum.splits)

section \<open>GridSplitter: the pieces of split\<close>

text \<open>
  Claim C8. For an array whose axis \<open>axis\<close> (a valid Python index of a dimension,
  negative ones included, naming dimension \<open>ax\<close>) has extent \<open>n * s\<close>, with \<open>n\<close> at
  least one, \<open>split arr n axis\<close> returns exactly \<open>n\<close> arrays. Each has extent \<open>s\<close> along
  that axis and the other extents of \<open>arr\<close>, and piece \<open>k\<close> is the \<open>k\<close>-th contiguous run:
  its element at a multi-index is the element of \<open>arr\<close> at the same multi-index with
  \<open>k * s\<close> added along the axis.
\<close>

theorem split_contiguous_pieces:
  assumes "well_formed arr"
    and "py_index axis (ndim arr) = Inr ax"
    and "shape arr ! ax = n * s"
    and "0 < n"
  shows "\<exists>pieces. split arr n axis = Inr pieces \<and> length pieces = n \<and>
           (\<forall>k<n. shape (pieces ! k) = (shape arr)[ax := s] \<and> well_formed (pieces ! k) \<and>
              (\<forall>ix. valid_index (shape (pieces ! k)) ix \<longrightarrow>
                 item (pieces ! k) ix = item arr (ix[ax := k * s + ix ! ax])))"
  using assms by (rule split_axis)

theorem split_contiguous_pieces_witness:
  "well_formed \<lparr>shape = [2, 4], elems = [10, 11, 12, 13, 14, 15, 16, 17 :: nat]\<rparr>
   \<and> py_index (- 1) (ndim \<lparr>shape = [2, 4], elems = [10, 11, 12, 13, 14, 15, 16, 17 :: nat]\<rparr>)
       = Inr 1
   \<and> shape \<lparr>shape = [2, 4], elems = [10, 11, 12, 13, 14, 15, 16, 17 :: nat]\<rparr> ! 1 = 2 * 2
   \<and> (0 :: nat) < 2
   \<and> (\<exists>pieces. split \<lparr>shape = [2, 4], elems = [10, 11, 12, 13, 14, 15, 16, 17 :: nat]\<rparr> 2 (- 1)
                  = Inr pieces \<and> length pieces = 2 \<and>
         (\<forall>k<2. shape (pieces ! k) = [2, 4][1 := 2] \<and> well_formed (pieces ! k) \<and>
            (\<forall>ix. valid_index (shape (pieces ! k)) ix \<longrightarrow>
               item (pieces ! k) ix =
               item \<lparr>shape = [2, 4], elems = [10, 11, 12, 13, 14, 15, 16, 17 :: nat]\<rparr>
                 (ix[1 := k * 2 + ix ! 1]))))"
proof -
  let ?A = "\<lparr>shape = [2, 4], elems = [10, 11, 12, 13, 14, 15, 16, 17 :: nat]\<rparr>"
  have 1: "well_formed ?A" by (simp add: well_formed_def)
  have 2: "py_index (- 1) (ndim ?A) = Inr 1" by (simp add: py_index_def ndim_def)
  have 3: "shape ?A ! 1 = 2 * 2" by simp
  have 4: "(0 :: nat) < 2" by simp
  from split_contiguous_pieces [OF 1 2 3 4] show ?thesis using 1 2 by simp
qed

section \<open>ChunkStacker: round trip and tile invariant\<close>

text \<open>
  Claim C7. For arrays of shape \<open>[R * h, C * w]\<close>, partitioned into \<open>R \<times> C\<close> chunks of
  shape \<open>[h, w]\<close> (the chunk counts read from \<open>chnks\<close>, every extent positive),
  \<open>reshape_arrays_in_stacked_chunks\<close> returns for each array a stacked array of shape
  \<open>[h, w, R * C]\<close>, and un-stacking its tile axis back into the \<open>R \<times> C\<close> grid
  (\<open>unstack_chunks\<close>) gives the original array, shape and elements.
\<close>

theorem stack_unstack_roundtrip:
  fixes arrays :: "'a ndarray list"
  assumes "list_all (\<lambda>a. well_formed a \<and> shape a = [R * h, C * w]) arrays"
    and "2 \<le> length chnks" and "length (chnks ! 0) = R" and "length (chnks ! 1) = C"
    and "0 < R" and "0 < C" and "0 < h" and "0 < w"
  shows "\<exists>sts. reshape_arrays_in_stacked_chunks arrays chnks = Inr sts \<and>
           list_all (\<lambda>st. shape st = [h, w, R * C]) sts \<and>
           map (unstack_chunks R C) sts = arrays"
proof -
  from stacked_arrays [OF assms]
  obtain sts where eq: "reshape_arrays_in_stacked_chunks arrays chnks = Inr sts"
    and all2: "list_all2 (\<lambda>a st. shape st = [h, w, R * C] \<and> well_formed st \<and>
             (\<forall>i j r c. i < h \<longrightarrow> j < w \<longrightarrow> r < R \<longrightarrow> c < C \<longrightarrow>
                item st [i, j, c * R + r] = item a [r * h + i, c * w + j])) arrays sts"
    by blast
  have len: "length arrays = length sts" using all2 by (rule list_all2_lengthD)
  have nth: "\<And>n. n < length sts \<Longrightarrow> shape (sts ! n) = [h, w, R * C] \<and>
       (\<forall>i j r c. i < h \<longrightarrow> j < w \<longrightarrow> r < R \<longrightarrow> c < C \<longrightarrow>
          item (sts ! n) [i, j, c * R + r] = item (arrays ! n) [r * h + i, c * w + j])"
    using all2 len by (simp add: list_all2_conv_all_nth)
  have shapes: "list_all (\<lambda>st. shape st = [h, w, R * C]) sts"
    using nth by (simp add: list_all_length)
  have "map (unstack_chunks R C) sts = arrays"
  proof (rule nth_equalityI)
    show "length (map (unstack_chunks R C) sts) = length arrays" using len by simp
  next
    fix n assume "n < length (map (unstack_chunks R C) sts)"
    then have n: "n < length sts" by simp
    then have a: "well_formed (arrays ! n)" "shape (arrays ! n) = [R * h, C * w]"
      using assms(1) len by (simp_all add: list_all_length)
    have "unstack_chunks R C (sts ! n) = arrays ! n"
      using unstack_of_stacked [OF a assms(7,8)] nth [OF n] by blast
    then show "map (unstack_chunks R C) sts ! n = arrays ! n" using n by simp
  qed
  then show ?thesis using eq shapes by blast
qed

theorem stack_unstack_roundtrip_witness:
  "list_all (\<lambda>a. well_formed a \<and> shape a = [2 * 2, 2 * 2]) [contents example_x, contents example_y]
   \<and> 2 \<le> length (chunks example_x)
   \<and> length (chunks example_x ! 0) = 2 \<and> length (chunks example_x ! 1) = 2
   \<and> (\<exists>sts. reshape_arrays_in_stacked_chunks [contents example_x, contents example_y]
                (chunks example_x) = Inr sts \<and>
             list_all (\<lambda>st. shape st = [2, 2, 2 * 2]) sts \<and>
             map (unstack_chunks 2 2) sts = [contents example_x, contents example_y])"
proof -
  have 1: "list_all (\<lambda>a. well_formed a \<and> shape a = [2 * 2, 2 * 2])
             [contents example_x, contents example_y]"
    by (simp add: example_x_def example_y_def well_formed_def)
  have 2: "2 \<le> length (chunks example_x)" by (simp add: example_x_def)
  have 3: "length (chunks example_x ! 0) = 2" by (simp add: example_x_def)
  have 4: "length (chunks example_x ! 1) = 2" by (simp add: example_x_def)
  from stack_unstack_roundtrip [OF 1 2 3 4] show ?thesis using 1 2 3 4 by simp
qed



section \<open>OverlapReducer: the reduction over the tile axis\<close>

text \<open>
  The reduction of at least one tile. For a stack of per-tile results with at least one
  tile, \<open>overlap_reduce\<close>
  (the NaN-ignoring maximum over the last axis, then \<open>squeeze\<close>) returns an array with
  one value per destination pixel (its shape is the destination's without the axes of
  length one), and at every pixel: if every tile is NaN there, the
  output is NaN; otherwise the output is not NaN, is the value of one of the tiles, and
  is at least every value of a tile that is not NaN (the largest of them); if exactly
  one tile is not NaN there, the output is that tile's value. Over a single tile without
  NaN the output has the elements of the tile unchanged. A tile contributes at a pixel
  when its value there is not NaN; where every value at the pixel is finite or NaN, as
  the kernel's results are specified, the same holds with "finite" for "not NaN".
\<close>

theorem overlap_reduce_nanmax:
  assumes "well_formed res" and "shape res = dst @ [Z]" and "0 < Z"
  shows "\<exists>out. overlap_reduce res = Inr out \<and> shape out = filter (\<lambda>d. d \<noteq> 1) dst \<and>
           length (elems out) = prod_list dst \<and>
           (\<forall>q<prod_list dst.
              (list_all isnan (pixel_values res q) \<longrightarrow> elems out ! q = NaN) \<and>
              (\<not> list_all isnan (pixel_values res q) \<longrightarrow>
                 \<not> isnan (elems out ! q) \<and> elems out ! q \<in> set (pixel_values res q) \<and>
                 (\<forall>v \<in> set (pixel_values res q). \<not> isnan v \<longrightarrow> fle v (elems out ! q))) \<and>
              (\<forall>z<Z. \<not> isnan (pixel_values res q ! z) \<and>
                      (\<forall>y<Z. y \<noteq> z \<longrightarrow> isnan (pixel_values res q ! y)) \<longrightarrow>
                   elems out ! q = pixel_values res q ! z) \<and>
              (list_all (\<lambda>v. isfinite v \<or> isnan v) (pixel_values res q) \<longrightarrow>
                 (\<not> list_ex isfinite (pixel_values res q) \<longrightarrow> elems out ! q = NaN) \<and>
                 (list_ex isfinite (pixel_values res q) \<longrightarrow>
                    isfinite (elems out ! q) \<and>
                    (\<forall>v \<in> set (pixel_values res q). isfinite v \<longrightarrow> fle v (elems out ! q))) \<and>
                 (\<forall>z<Z. isfinite (pixel_values res q ! z) \<and>
                         (\<forall>y<Z. y \<noteq> z \<longrightarrow> \<not> isfinite (pixel_values res q ! y)) \<longrightarrow>
                      elems out ! q = pixel_values res q ! z))) \<and>
           (Z = 1 \<and> list_all (\<lambda>v. \<not> isnan v) (elems res) \<longrightarrow> elems out = elems res)"
proof -
  let ?P = "prod_list dst"
  from nanmax_last_pixels [OF assms]
  obtain r where r: "nanmax_last res = Inr r" "shape r = dst" "length (elems r) = ?P"
    "\<forall>q<?P. nanmax_list (pixel_values res q) = Inr (elems r ! q)" by blast
  have len: "length (elems res) = ?P * Z" using assms by (simp add: well_formed_def)
  have lpv: "length (pixel_values res q) = Z" for q by (simp add: pixel_values_def assms(2))
  have ne: "pixel_values res q \<noteq> []" for q using lpv [of q] assms(3) by auto
  have eq: "overlap_reduce res = Inr (squeeze r)" using r(1) by (simp add: overlap_reduce_def)
  have el: "elems (squeeze r) = elems r" by (simp add: squeeze_def)
  have px: "(list_all isnan (pixel_values res q) \<longrightarrow> elems r ! q = NaN) \<and>
            (\<not> list_all isnan (pixel_values res q) \<longrightarrow>
               \<not> isnan (elems r ! q) \<and> elems r ! q \<in> set (pixel_values res q) \<and>
               (\<forall>v \<in> set (pixel_values res q). \<not> isnan v \<longrightarrow> fle v (elems r ! q))) \<and>
            (\<forall>z<Z. \<not> isnan (pixel_values res q ! z) \<and>
                    (\<forall>y<Z. y \<noteq> z \<longrightarrow> isnan (pixel_values res q ! y)) \<longrightarrow>
                 elems r ! q = pixel_values res q ! z) \<and>
            (list_all (\<lambda>v. isfinite v \<or> isnan v) (pixel_values res q) \<longrightarrow>
               (\<not> list_ex isfinite (pixel_values res q) \<longrightarrow> elems r ! q = NaN) \<and>
               (list_ex isfinite (pixel_values res q) \<longrightarrow>
                  isfinite (elems r ! q) \<and>
                  (\<forall>v \<in> set (pixel_values res q). isfinite v \<longrightarrow> fle v (elems r ! q))) \<and>
               (\<forall>z<Z. isfinite (pixel_values res q ! z) \<and>
                       (\<forall>y<Z. y \<noteq> z \<longrightarrow> \<not> isfinite (pixel_values res q ! y)) \<longrightarrow>
                    elems r ! q = pixel_values res q ! z))"
    if q: "q < ?P" for q
  proof -
    let ?vs = "pixel_values res q" and ?o = "elems r ! q"
    from nanmax_list_props [OF ne [of q]] r(4) q
    have p: "isnan ?o = list_all isnan ?vs" "?o \<in> set ?vs"
      "\<forall>v \<in> set ?vs. \<not> isnan v \<longrightarrow> fle v ?o" by auto
    have a: "list_all isnan ?vs \<longrightarrow> ?o = NaN" using p(1) by (cases ?o) simp_all
    have b: "\<not> list_all isnan ?vs \<longrightarrow> \<not> isnan ?o \<and> ?o \<in> set ?vs \<and>
               (\<forall>v \<in> set ?vs. \<not> isnan v \<longrightarrow> fle v ?o)" using p by simp
    have c: "?o = ?vs ! z"
      if z: "z < Z" and one: "\<not> isnan (?vs ! z)" "\<forall>y<Z. y \<noteq> z \<longrightarrow> isnan (?vs ! y)" for z
    proof -
      have "\<not> list_all isnan ?vs" using z one(1) lpv [of q] by (auto simp: list_all_length)
      then have nn: "\<not> isnan ?o" using p(1) by simp
      obtain y where y: "y < Z" "?o = ?vs ! y" using p(2) lpv [of q] by (auto simp: in_set_conv_nth)
      then have "y = z" using one(2) nn by auto
      then show ?thesis using y by simp
    qed
    have d: "(\<not> list_ex isfinite ?vs \<longrightarrow> ?o = NaN) \<and>
             (list_ex isfinite ?vs \<longrightarrow>
                isfinite ?o \<and> (\<forall>v \<in> set ?vs. isfinite v \<longrightarrow> fle v ?o)) \<and>
             (\<forall>z<Z. isfinite (?vs ! z) \<and> (\<forall>y<Z. y \<noteq> z \<longrightarrow> \<not> isfinite (?vs ! y)) \<longrightarrow>
                  ?o = ?vs ! z)"
      if fin: "list_all (\<lambda>v. isfinite v \<or> isnan v) ?vs"
    proof -
      have fn: "isfinite v = (\<not> isnan v)" if "v \<in> set ?vs" for v
        using fin that by (cases v) (auto simp: list_all_iff)
      have ex: "list_ex isfinite ?vs = (\<not> list_all isnan ?vs)"
        using fn by (auto simp: list_ex_iff list_all_iff)
      have d1: "\<not> list_ex isfinite ?vs \<longrightarrow> ?o = NaN" using a ex by simp
      have d2: "list_ex isfinite ?vs \<longrightarrow>
                  isfinite ?o \<and> (\<forall>v \<in> set ?vs. isfinite v \<longrightarrow> fle v ?o)"
        using b ex fn by auto
      have d3: "?o = ?vs ! z"
        if z: "z < Z" and one: "isfinite (?vs ! z)" "\<forall>y<Z. y \<noteq> z \<longrightarrow> \<not> isfinite (?vs ! y)"
        for z
      proof (rule c [OF z])
        show "\<not> isnan (?vs ! z)" using one(1) fn [of "?vs ! z"] z lpv [of q] by simp
        show "\<forall>y<Z. y \<noteq> z \<longrightarrow> isnan (?vs ! y)"
          using one(2) fn lpv [of q] by (metis nth_mem)
      qed
      show ?thesis using d1 d2 d3 by blast
    qed
    show ?thesis using a b c d by blast
  qed
  have single: "elems r = elems res" if "Z = 1" "list_all (\<lambda>v. \<not> isnan v) (elems res)"
  proof (rule nth_equalityI)
    show "length (elems r) = length (elems res)" using r(3) len that(1) by simp
  next
    fix q assume "q < length (elems r)"
    then have q: "q < ?P" using r(3) by simp
    have "pixel_values res q = [elems res ! q]" using that(1) by (simp add: pixel_values_def assms(2))
    then have "nanmax_list (pixel_values res q) = Inr (elems res ! q)" by simp
    then show "elems r ! q = elems res ! q" using r(4) q by simp
  qed
  have shq: "shape (squeeze r) = filter (\<lambda>d. d \<noteq> 1) dst" using r(2) by (simp add: squeeze_def)
  show ?thesis
    using eq shq r(3) px single by (intro exI [of _ "squeeze r"]) (simp add: el)
qed

theorem overlap_reduce_nanmax_witness:
  "well_formed \<lparr>shape = [1, 2, 2, 2],
                 elems = [Fin 3, Fin 7, NaN, Fin 5, NaN, NaN, Fin 1, NaN]\<rparr>
   \<and> shape \<lparr>shape = [1, 2, 2, 2], elems = [Fin 3, Fin 7, NaN, Fin 5, NaN, NaN, Fin 1, NaN]\<rparr>
       = [1, 2, 2] @ [2]
   \<and> (0 :: nat) < 2
   \<and> overlap_reduce \<lparr>shape = [1, 2, 2, 2],
                       elems = [Fin 3, Fin 7, NaN, Fin 5, NaN, NaN, Fin 1, NaN]\<rparr>
       = Inr \<lparr>shape = [2, 2], elems = [Fin 7, Fin 5, NaN, Fin 1]\<rparr>
   \<and> (\<exists>out. overlap_reduce \<lparr>shape = [1, 2, 2, 2],
                  elems = [Fin 3, Fin 7, NaN, Fin 5, NaN, NaN, Fin 1, NaN]\<rparr> = Inr out \<and>
          length (elems out) = prod_list [1, 2, 2])"
proof -
  let ?res = "\<lparr>shape = [1, 2, 2, 2], elems = [Fin 3, Fin 7, NaN, Fin 5, NaN, NaN, Fin 1, NaN]\<rparr>"
  have 1: "well_formed ?res" by (simp add: well_formed_def)
  have 2: "shape ?res = [1, 2, 2] @ [2]" by simp
  have 3: "(0 :: nat) < 2" by simp
  have 4: "overlap_reduce ?res = Inr \<lparr>shape = [2, 2], elems = [Fin 7, Fin 5, NaN, Fin 1]\<rparr>"
    by (simp add: overlap_reduce_def nanmax_last_def py_index_def ndim_def squeeze_def
        fmax_def upt_rec)
  from overlap_reduce_nanmax [OF 1 2 3]
  obtain out where "overlap_reduce ?res = Inr out" "length (elems out) = prod_list [1, 2, 2]"
    by blast
  then show ?thesis using 1 4 by simp
qed

text \<open>
  Claim C5 (the code departs from it). Where no tile contributes a value the output is to
  be NaN, and for a stack of at least one tile it is, as \<open>overlap_reduce_nanmax\<close> above
  shows. A stack of no tiles is the case the code misses: the reduced axis has length
  zero, \<^verbatim>\<open>da.nanmax\<close> raises ValueError, and so does \<open>overlap_reduce\<close>, whatever the
  destination shape \<open>dst\<close> is. The culling step produces this stack for a destination that
  no tile's footprint intersects (the witness runs the 4 by 4 grid against the destination
  at the coordinates 10 and 11: all four tiles are dropped and
  \<open>parallel_gradient_search\<close> raises ValueError).
\<close>

theorem empty_tile_axis_raises:
  assumes "shape res = dst @ [0]"
  shows "nanmax_last res = Inl ValueError \<and> overlap_reduce res = Inl ValueError"
proof -
  have "py_index (- 1) (ndim res) = Inr (length dst)"
    using assms by (simp add: py_index_def ndim_def)
  then have "nanmax_last res = Inl ValueError"
    using assms by (simp add: nanmax_last_def)
  then show ?thesis by (simp add: overlap_reduce_def)
qed

theorem empty_tile_axis_raises_witness:
  "shape \<lparr>shape = [1, 2, 2, 0], elems = ([] :: float64 list)\<rparr> = [1, 2, 2] @ [0]
   \<and> overlap_reduce \<lparr>shape = [1, 2, 2, 0], elems = []\<rparr> = Inl ValueError
   \<and> area grid_geometry [(10, 10), (11, 10), (11, 11), (10, 11)] = 1
   \<and> get_polygon grid_geometry example_far_x example_far_y =
       Inr [(10, 10), (11, 10), (11, 11), (10, 11)]
   \<and> remove_extra_chunks grid_geometry example_stacked example_far_x example_far_y =
       Inr (map (\<lambda>a. \<lparr>shape = butlast (shape a) @ [0], elems = []\<rparr>) example_stacked)
   \<and> blockwise first_sample_kernel
        (map (\<lambda>a. \<lparr>shape = butlast (shape a) @ [0], elems = []\<rparr>) example_stacked)
        example_far_x example_far_y ''bilinear'' = Inr \<lparr>shape = [1, 2, 2, 0], elems = []\<rparr>
   \<and> parallel_gradient_search first_sample_kernel zero_differences grid_geometry
        example_data example_x example_y example_far_x example_far_y None = Inl ValueError"
proof -
  let ?res = "\<lparr>shape = [1, 2, 2, 0], elems = ([] :: float64 list)\<rparr>"
  have 1: "shape ?res = [1, 2, 2] @ [0]" by simp
  have 2: "area grid_geometry [(10, 10), (11, 10), (11, 11), (10, 11)] = 1"
    by (simp add: grid_geometry_def shoelace_def)
  have 3: "get_polygon grid_geometry example_far_x example_far_y =
       Inr [(10, 10), (11, 10), (11, 11), (10, 11)]"
    by code_simp
  have 4: "remove_extra_chunks grid_geometry example_stacked example_far_x example_far_y =
       Inr (map (\<lambda>a. \<lparr>shape = butlast (shape a) @ [0], elems = []\<rparr>) example_stacked)"
    by code_simp
  have 5: "blockwise first_sample_kernel
        (map (\<lambda>a. \<lparr>shape = butlast (shape a) @ [0], elems = []\<rparr>) example_stacked)
        example_far_x example_far_y ''bilinear'' = Inr ?res"
    by code_simp
  have 6: "parallel_gradient_search first_sample_kernel zero_differences grid_geometry
        example_data example_x example_y example_far_x example_far_y None = Inl ValueError"
    by code_simp
  from empty_tile_axis_raises [OF 1] show ?thesis using 2 3 4 5 6 by simp
qed

text \<open>
  Claim C10. Permuting the tiles of a stack of per-tile results (taking its slices along
  the last axis in the order of a permutation \<open>perm\<close> of the tile indices) does not
  change the result of \<open>overlap_reduce\<close>: the same array, or the same exception for a
  stack of no tiles.
\<close>

theorem overlap_reduce_permutation:
  assumes wf: "well_formed res" and sh: "shape res = dst @ [Z]"
    and perm: "mset perm = mset [0..<Z]"
  shows "\<exists>res'. np_take_list res perm (- 1) = Inr res' \<and>
           overlap_reduce res' = overlap_reduce res"
proof -
  let ?P = "prod_list dst" and ?es = "elems res"
  let ?g = "\<lambda>q. map (\<lambda>x. ?es ! (q * Z + x)) perm"
  let ?res' = "\<lparr>shape = dst @ [length perm], elems = concat (map ?g [0..<?P])\<rparr>"
  have setp: "set perm = {0..<Z}" using perm mset_eq_setD by fastforce
  have lp: "length perm = Z" using perm mset_eq_length by fastforce
  have tk: "np_take_list res perm (- 1) = Inr ?res'"
    by (rule np_take_list_last [OF wf sh]) (simp add: setp)
  have blk: "\<And>q. q < ?P \<Longrightarrow> length (?g q) = Z" using lp by simp
  have len': "length (elems ?res') = ?P * Z"
    using length_concat_blocks [of ?P ?g Z, OF blk] by simp
  have wf': "well_formed ?res'" using len' lp by (simp add: well_formed_def)
  have sh': "shape ?res' = dst @ [Z]" using lp by simp
  have "overlap_reduce ?res' = overlap_reduce res"
  proof (cases "Z = 0")
    case True
    have "length ?es = 0" using wf sh True by (simp add: well_formed_def)
    moreover have "perm = []" using lp True by simp
    ultimately have "?res' = res" using sh True by simp
    then show ?thesis by simp
  next
    case False
    then have Z: "0 < Z" by simp
    from nanmax_last_pixels [OF wf sh Z]
    obtain r where r: "nanmax_last res = Inr r" "shape r = dst" "length (elems r) = ?P"
      "\<forall>q<?P. nanmax_list (pixel_values res q) = Inr (elems r ! q)" by blast
    from nanmax_last_pixels [OF wf' sh' Z]
    obtain r' where r': "nanmax_last ?res' = Inr r'" "shape r' = dst" "length (elems r') = ?P"
      "\<forall>q<?P. nanmax_list (pixel_values ?res' q) = Inr (elems r' ! q)" by blast
    have "elems r' = elems r"
    proof (rule nth_equalityI)
      show "length (elems r') = length (elems r)" using r(3) r'(3) by simp
    next
      fix q assume "q < length (elems r')"
      then have q: "q < ?P" using r'(3) by simp
      have "pixel_values ?res' q = map (\<lambda>z. concat (map ?g [0..<?P]) ! (q * Z + z)) [0..<Z]"
        using lp by (simp add: pixel_values_def)
      also have "\<dots> = map (\<lambda>z. ?g q ! z) [0..<Z]"
        using nth_concat_blocks [of ?P ?g Z q, OF blk q] by simp
      also have "\<dots> = ?g q" using lp by (intro nth_equalityI) simp_all
      finally have p': "pixel_values ?res' q = ?g q" .
      have p: "pixel_values res q = map (\<lambda>x. ?es ! (q * Z + x)) [0..<Z]"
        by (simp add: pixel_values_def sh)
      have "mset (pixel_values ?res' q) = mset (pixel_values res q)"
        unfolding p p' using perm by (metis mset_map)
      then have "nanmax_list (pixel_values ?res' q) = nanmax_list (pixel_values res q)"
        by (rule nanmax_list_mset)
      then show "elems r' ! q = elems r ! q" using r(4) r'(4) q by simp
    qed
    then have "r' = r" using r(2) r'(2) by simp
    then show ?thesis using r(1) r'(1) by (simp add: overlap_reduce_def)
  qed
  then show ?thesis using tk by blast
qed

theorem overlap_reduce_permutation_witness:
  "well_formed \<lparr>shape = [1, 2, 2, 2],
                 elems = [Fin 3, Fin 7, NaN, Fin 5, NaN, NaN, Fin 1, NaN]\<rparr>
   \<and> shape \<lparr>shape = [1, 2, 2, 2], elems = [Fin 3, Fin 7, NaN, Fin 5, NaN, NaN, Fin 1, NaN]\<rparr>
       = [1, 2, 2] @ [2]
   \<and> mset [1, 0 :: nat] = mset [0..<2]
   \<and> (\<exists>res'. np_take_list \<lparr>shape = [1, 2, 2, 2],
                    elems = [Fin 3, Fin 7, NaN, Fin 5, NaN, NaN, Fin 1, NaN]\<rparr> [1, 0] (- 1)
                  = Inr res' \<and>
          overlap_reduce res' =
          overlap_reduce \<lparr>shape = [1, 2, 2, 2],
                           elems = [Fin 3, Fin 7, NaN, Fin 5, NaN, NaN, Fin 1, NaN]\<rparr>)"
proof -
  let ?res = "\<lparr>shape = [1, 2, 2, 2], elems = [Fin 3, Fin 7, NaN, Fin 5, NaN, NaN, Fin 1, NaN]\<rparr>"
  have 1: "well_formed ?res" by (simp add: well_formed_def)
  have 2: "shape ?res = [1, 2, 2] @ [2]" by simp
  have 3: "mset [1, 0 :: nat] = mset [0..<2]" by (simp add: upt_rec)
  from overlap_reduce_permutation [OF 1 2 3] show ?thesis using 1 3 by simp
qed

section \<open>TileCuller\<close>



text \<open>
  Fail-open where the footprints are built. With the footprints built and the stacked
  arrays well formed: if the area of
  the destination footprint is zero, \<open>remove_extra_chunks\<close> returns the arrays
  unchanged, every tile kept; and if \<open>intersects\<close> answers or raises TopologicalError
  on every tile, \<open>remove_extra_chunks\<close> returns arrays, no exception, and a tile on
  which \<open>intersects\<close> raised TopologicalError is among the tiles kept, at one position
  \<open>k\<close> in every array.
\<close>

theorem culling_fails_open:
  assumes "get_polygon g dst_x dst_y = Inr dp"
    and "source_polygons g arrays = Inr polys"
    and "list_all (\<lambda>a. well_formed a \<and> shape a \<noteq> [] \<and> last (shape a) = length polys) arrays"
  shows "(area g dp = 0 \<longrightarrow> remove_extra_chunks g arrays dst_x dst_y = Inr arrays)
       \<and> (list_all (\<lambda>p. (\<exists>b. intersects g dp p = Inr b) \<or>
                          intersects g dp p = Inl TopologicalError) polys \<longrightarrow>
            (\<exists>res. remove_extra_chunks g arrays dst_x dst_y = Inr res \<and>
               length res = length arrays \<and>
               (\<forall>z<length polys. intersects g dp (polys ! z) = Inl TopologicalError \<longrightarrow>
                  (\<exists>k. \<forall>n<length arrays.
                     k < length (tiles (res ! n)) \<and>
                     tiles (res ! n) ! k = tiles (arrays ! n) ! z))))"
proof (intro conjI impI)
  assume zero: "area g dp = 0"
  have cv: "for_each (cover g dp) polys = Inr (map (\<lambda>p. True) polys)"
    by (rule for_each_map) (simp add: cover_def zero)
  have "for_each (\<lambda>arr. take_mask arr (map (\<lambda>p. True) polys) (- 1)) arrays =
        Inr (map (\<lambda>a. a) arrays)"
  proof (rule for_each_map)
    fix a assume "a \<in> set arrays"
    then have "well_formed a" "shape a \<noteq> []" "length polys = last (shape a)"
      using assms(3) by (auto simp: list_all_iff)
    then show "take_mask a (map (\<lambda>p. True) polys) (- 1) = Inr a" by (rule take_mask_all)
  qed
  then show "remove_extra_chunks g arrays dst_x dst_y = Inr arrays"
    by (simp add: remove_extra_chunks_def assms(1,2) cv)
next
  assume ok: "list_all (\<lambda>p. (\<exists>b. intersects g dp p = Inr b) \<or>
                          intersects g dp p = Inl TopologicalError) polys"
  let ?keep = "\<lambda>z. area g dp = 0 \<or> intersects g dp (polys ! z) \<noteq> Inr False"
  let ?kept = "filter ?keep [0..<length polys]"
  from remove_kept [OF assms] ok
  obtain res where res: "remove_extra_chunks g arrays dst_x dst_y = Inr res"
    "length res = length arrays"
    "\<forall>n<length arrays. tiles (res ! n) = map (\<lambda>z. tiles (arrays ! n) ! z) ?kept"
    by blast
  have "\<exists>k. \<forall>n<length arrays. k < length (tiles (res ! n)) \<and>
              tiles (res ! n) ! k = tiles (arrays ! n) ! z"
    if z: "z < length polys" and te: "intersects g dp (polys ! z) = Inl TopologicalError" for z
  proof -
    have "?keep z" using te by simp
    from filter_index [of z "length polys" ?keep, OF z this]
    obtain k where k: "k < length ?kept" "?kept ! k = z" by blast
    have "k < length (tiles (res ! n)) \<and> tiles (res ! n) ! k = tiles (arrays ! n) ! z"
      if "n < length arrays" for n
      using res(3) that k by simp
    then show ?thesis by blast
  qed
  then show "\<exists>res. remove_extra_chunks g arrays dst_x dst_y = Inr res \<and>
               length res = length arrays \<and>
               (\<forall>z<length polys. intersects g dp (polys ! z) = Inl TopologicalError \<longrightarrow>
                  (\<exists>k. \<forall>n<length arrays.
                     k < length (tiles (res ! n)) \<and>
                     tiles (res ! n) ! k = tiles (arrays ! n) ! z))"
    using res(1,2) by blast
qed

theorem culling_fails_open_witness:
  "area grid_geometry [(5, 5), (5, 5), (5, 5), (5, 5)] = 0
   \<and> remove_extra_chunks grid_geometry example_stacked example_point_x example_point_x =
       Inr example_stacked
   \<and> intersects (grid_geometry\<lparr>intersects := \<lambda>p q. Inl TopologicalError\<rparr>)
        [(0, 0), (1, 0), (1, 1), (0, 1)] [(2, 2), (3, 2), (3, 3), (2, 3)] = Inl TopologicalError
   \<and> (\<exists>res. remove_extra_chunks (grid_geometry\<lparr>intersects := \<lambda>p q. Inl TopologicalError\<rparr>)
               example_stacked example_dst_x example_dst_y = Inr res \<and>
             length res = length example_stacked)"
proof -
  let ?pt = "[(5, 5), (5, 5), (5, 5), (5, 5)] :: (real \<times> real) list"
  let ?dp = "[(0, 0), (1, 0), (1, 1), (0, 1)] :: (real \<times> real) list"
  let ?polys = "[[(0, 0), (1, 0), (1, 1), (0, 1)], [(0, 2), (1, 2), (1, 3), (0, 3)],
                 [(2, 0), (3, 0), (3, 1), (2, 1)], [(2, 2), (3, 2), (3, 3), (2, 3)]]
                :: (real \<times> real) list list"
  let ?g = "grid_geometry\<lparr>intersects := \<lambda>p q. Inl TopologicalError\<rparr>"
  have a0: "get_boundary example_point_x example_point_x =
            Inr [(Fin 5, Fin 5), (Fin 5, Fin 5), (Fin 5, Fin 5), (Fin 5, Fin 5)]"
    by code_simp
  have a1: "get_polygon grid_geometry example_point_x example_point_x = Inr ?pt"
    by (simp add: get_polygon_def a0 grid_geometry_def)
  have a2: "source_polygons grid_geometry example_stacked = Inr ?polys"
    by (rule example_polys(2))
  have a3: "list_all (\<lambda>a. well_formed a \<and> shape a \<noteq> [] \<and> last (shape a) = length ?polys)
             example_stacked"
    by (simp add: example_stacked_def well_formed_def)
  have a4: "area grid_geometry ?pt = 0"
    by (simp add: grid_geometry_def shoelace_def)
  have b1: "get_polygon ?g example_dst_x example_dst_y = Inr ?dp"
    by code_simp
  have b2: "source_polygons ?g example_stacked = Inr ?polys"
    by code_simp
  have b4: "list_all (\<lambda>p. (\<exists>b. intersects ?g ?dp p = Inr b) \<or>
                          intersects ?g ?dp p = Inl TopologicalError) ?polys"
    by simp
  have b5: "intersects ?g ?dp [(2, 2), (3, 2), (3, 3), (2, 3)] = Inl TopologicalError"
    by simp
  from culling_fails_open [OF a1 a2 a3] a4
  have A: "remove_extra_chunks grid_geometry example_stacked example_point_x example_point_x =
           Inr example_stacked" by blast
  from culling_fails_open [OF b1 b2 a3] b4
  have B: "\<exists>res. remove_extra_chunks ?g example_stacked example_dst_x example_dst_y = Inr res \<and>
             length res = length example_stacked" by blast
  show ?thesis using a4 A b5 B by blast
qed

text \<open>
  Claim C3 (the code departs from it). For a destination footprint of area zero every tile
  is to be kept, whatever its geometry, and no error surfaced. The code decides so for
  every footprint (\<open>cover\<close> answers True), but it builds the footprints of the tiles
  before that decision and outside its \<^verbatim>\<open>try\<close>: an exception of the constructor on a
  tile is raised by \<open>remove_extra_chunks\<close>, and no tile is kept. For a tile with a
  single finite corner shapely's constructor raises ValueError (the witness runs the grid
  at the edge of the disk against the destination whose four corners coincide, with
  \<open>grid_geometry\<close>, through \<open>remove_extra_chunks\<close> and through
  \<open>parallel_gradient_search\<close>). The missing guard is that of \<open>get_polygon\<close> for one
  or two finite corners, here on a tile.
\<close>

theorem zero_area_culling_raises:
  assumes "get_polygon g dst_x dst_y = Inr dp"
    and "area g dp = 0"
    and "source_polygons g arrays = Inl e"
  shows "cover g dp p = Inr True \<and> remove_extra_chunks g arrays dst_x dst_y = Inl e"
  using assms by (simp add: cover_def remove_extra_chunks_def)

theorem zero_area_culling_raises_witness:
  "get_polygon grid_geometry example_point_x example_point_x =
     Inr [(5, 5), (5, 5), (5, 5), (5, 5)]
   \<and> area grid_geometry [(5, 5), (5, 5), (5, 5), (5, 5)] = 0
   \<and> source_polygons grid_geometry example_edge_stacked = Inl ValueError
   \<and> remove_extra_chunks grid_geometry example_edge_stacked example_point_x example_point_x
       = Inl ValueError
   \<and> parallel_gradient_search first_sample_kernel zero_differences grid_geometry
        example_data example_edge_x example_edge_y example_point_x example_point_x None
       = Inl ValueError"
proof -
  let ?pt = "[(5, 5), (5, 5), (5, 5), (5, 5)] :: (real \<times> real) list"
  have 1: "get_polygon grid_geometry example_point_x example_point_x = Inr ?pt"
    by code_simp
  have 2: "area grid_geometry ?pt = 0"
    by (simp add: grid_geometry_def shoelace_def)
  have 3: "source_polygons grid_geometry example_edge_stacked = Inl ValueError"
    by code_simp
  have 4: "parallel_gradient_search first_sample_kernel zero_differences grid_geometry
        example_data example_edge_x example_edge_y example_point_x example_point_x None
       = Inl ValueError"
    by code_simp
  from zero_area_culling_raises [OF 1 2 3] show ?thesis using 1 2 3 4 by simp
qed

text \<open>
  Claim C4 (the code departs from it). \<open>get_polygon\<close> passes the finite corners to the
  constructor without a guard, and \<open>remove_extra_chunks\<close> builds the footprints outside
  its \<^verbatim>\<open>try\<close>: whatever the constructor raises on the boundary of the destination
  is raised by \<open>get_polygon\<close> and by \<open>remove_extra_chunks\<close>. For a grid with a single
  finite corner the boundary has one point, which shapely's constructor refuses with
  ValueError (the witness runs it with \<open>grid_geometry\<close>).
\<close>

theorem polygon_error_is_surfaced:
  assumes "get_boundary dst_x dst_y = Inr boundary"
    and "Polygon g boundary = Inl e"
  shows "get_polygon g dst_x dst_y = Inl e \<and> remove_extra_chunks g arrays dst_x dst_y = Inl e"
  using assms by (simp add: get_polygon_def remove_extra_chunks_def)

theorem polygon_error_is_surfaced_witness:
  "get_boundary example_corner_x example_corner_x = Inr [(Fin 0, Fin 0)]
   \<and> Polygon grid_geometry [(Fin 0, Fin 0)] = Inl ValueError
   \<and> get_polygon grid_geometry example_corner_x example_corner_x = Inl ValueError
   \<and> remove_extra_chunks grid_geometry example_stacked example_corner_x example_corner_x
       = Inl ValueError"
proof -
  have 1: "get_boundary example_corner_x example_corner_x = Inr [(Fin 0, Fin 0)]"
    by code_simp
  have 2: "Polygon grid_geometry [(Fin 0, Fin 0)] = Inl ValueError"
    by (simp add: grid_geometry_def)
  from polygon_error_is_surfaced [OF 1 2, of example_stacked] show ?thesis using 1 2 by simp
qed

section \<open>ParallelResampleDispatcher: rank check and result shape\<close>

text \<open>
  Claim C6. For data of a rank other than 2 and 3, \<open>parallel_gradient_search\<close> returns
  the NotImplementedError \<open>unsupported_rank\<close>, whatever the other arguments, the kernel
  and the geometry are (also when a later stage would raise on them): no stage runs
  before the check and no array is returned. For data of rank 2 or 3, with a kernel and a
  geometry that raise no NotImplementedError of their own, no exception that
  \<open>parallel_gradient_search\<close> raises is a NotImplementedError.
\<close>

theorem unsupported_rank_rejected_first:
  "(ndim (contents data) \<noteq> 2 \<and> ndim (contents data) \<noteq> 3 \<longrightarrow>
      parallel_gradient_search k diff g data src_x src_y dst_x dst_y method = Inl unsupported_rank)
   \<and> ((ndim (contents data) = 2 \<or> ndim (contents data) = 3) \<and> raise_no_rank_error k g \<longrightarrow>
      (\<forall>e. parallel_gradient_search k diff g data src_x src_y dst_x dst_y method = Inl e \<longrightarrow>
           \<not> not_implemented e))"
proof (intro conjI impI allI)
  assume "ndim (contents data) \<noteq> 2 \<and> ndim (contents data) \<noteq> 3"
  then show "parallel_gradient_search k diff g data src_x src_y dst_x dst_y method =
             Inl unsupported_rank"
    by (simp add: parallel_gradient_search_def)
next
  fix e
  assume "(ndim (contents data) = 2 \<or> ndim (contents data) = 3) \<and> raise_no_rank_error k g"
    and "parallel_gradient_search k diff g data src_x src_y dst_x dst_y method = Inl e"
  then show "\<not> not_implemented e" using ni_pipeline by blast
qed

theorem unsupported_rank_rejected_first_witness:
  "ndim (contents \<lparr>contents = \<lparr>shape = [4], elems = map Fin [1, 2, 3, 4]\<rparr>, chunks = [[4]]\<rparr>) \<noteq> 2
   \<and> ndim (contents \<lparr>contents = \<lparr>shape = [4], elems = map Fin [1, 2, 3, 4]\<rparr>, chunks = [[4]]\<rparr>) \<noteq> 3
   \<and> parallel_gradient_search first_sample_kernel zero_differences grid_geometry
        \<lparr>contents = \<lparr>shape = [4], elems = map Fin [1, 2, 3, 4]\<rparr>, chunks = [[4]]\<rparr>
        example_x example_y example_dst_x example_dst_y None = Inl unsupported_rank
   \<and> ndim (contents example_data) = 2
   \<and> raise_no_rank_error first_sample_kernel grid_geometry
   \<and> \<not> (\<exists>e. parallel_gradient_search first_sample_kernel zero_differences grid_geometry
               example_data example_x example_y example_dst_x example_dst_y None = Inl e
            \<and> not_implemented e)"
proof -
  let ?d1 = "\<lparr>contents = \<lparr>shape = [4], elems = map Fin [1, 2, 3, 4]\<rparr>, chunks = [[4]]\<rparr>"
  have 1: "ndim (contents ?d1) \<noteq> 2 \<and> ndim (contents ?d1) \<noteq> 3" by (simp add: ndim_def)
  have 2: "ndim (contents example_data) = 2" by (simp add: ndim_def example_data_def)
  have 3: "raise_no_rank_error first_sample_kernel grid_geometry"
    by (simp add: raise_no_rank_error_def first_sample_kernel_def grid_geometry_def Let_def)
  from unsupported_rank_rejected_first
    [of ?d1 first_sample_kernel zero_differences grid_geometry example_x example_y
        example_dst_x example_dst_y None] 1
  have A: "parallel_gradient_search first_sample_kernel zero_differences grid_geometry ?d1
             example_x example_y example_dst_x example_dst_y None = Inl unsupported_rank"
    by blast
  from unsupported_rank_rejected_first
    [of example_data first_sample_kernel zero_differences grid_geometry example_x example_y
        example_dst_x example_dst_y None] 2 3
  have B: "\<not> (\<exists>e. parallel_gradient_search first_sample_kernel zero_differences grid_geometry
               example_data example_x example_y example_dst_x example_dst_y None = Inl e
            \<and> not_implemented e)"
    by blast
  show ?thesis using 1 2 3 A B by blast
qed

text \<open>
  The shape of the result in general: whenever \<open>parallel_gradient_search\<close> returns an
  array, its shape is the bands of the data (for 3D data) followed by the rows and
  columns of the destination, with every axis of length one removed.
\<close>

theorem result_shape_is_squeezed:
  assumes run: "parallel_gradient_search k diff g data src_x src_y dst_x dst_y method = Inr out"
  shows "(ndim (contents data) = 3 \<longrightarrow>
            shape out = filter (\<lambda>d. d \<noteq> 1)
                          [shape (contents data) ! 0, shape dst_x ! 0, shape dst_x ! 1])
       \<and> (ndim (contents data) = 2 \<longrightarrow>
            shape out = filter (\<lambda>d. d \<noteq> 1) [shape dst_x ! 0, shape dst_x ! 1])"
proof -
  let ?d3 = "if ndim (contents data) = 2 then newaxis_front data else data"
  from run have rank: "ndim (contents data) = 2 \<or> ndim (contents data) = 3"
    by (auto simp: parallel_gradient_search_def split: if_splits)
  from run rank obtain arrays stacked kept res where
    st: "reshape_to_stacked_3d ?d3 = Inr stacked"
    and rm: "remove_extra_chunks g (stacked # arrays) dst_x dst_y = Inr kept"
    and bw: "blockwise k kept dst_x dst_y (case method of None \<Rightarrow> ''bilinear'' | Some m \<Rightarrow> m)
             = Inr res"
    and orr: "overlap_reduce res = Inr out"
    by (auto simp: parallel_gradient_search_def Let_def split: sum.splits prod.splits if_splits)
  define B where "B = (if ndim (contents data) = 2 then 1 else shape (contents data) ! 0)"
  have "\<exists>H W. shape (contents ?d3) = [B, H, W]"
  proof (cases "ndim (contents data) = 2")
    case True
    then obtain H W where "shape (contents data) = [H, W]"
      by (cases "shape (contents data)"; cases "tl (shape (contents data))")
         (auto simp: ndim_def)
    then show ?thesis using True by (simp add: newaxis_front_def B_def)
  next
    case False
    then have "length (shape (contents data)) = 3" using rank by (simp add: ndim_def)
    then obtain b H W where "shape (contents data) = [b, H, W]"
      by (auto simp: length_Suc_conv numeral_3_eq_3)
    then show ?thesis using False by (simp add: B_def)
  qed
  then obtain H W where sh3: "shape (contents ?d3) = [B, H, W]" by blast
  from stacked_3d_shape [OF st sh3] obtain h w T where shst: "shape stacked = [B, h, w, T]"
    by blast
  from remove_extra_chunks_hd [OF rm] obtain covers r rs where
    kept: "kept = r # rs" and tm: "take_mask stacked covers (- 1) = Inr r" by blast
  from take_mask_shape [OF tm shst] obtain K where shr: "shape r = [B, h, w, K]" by blast
  have "shape res = [B, shape dst_x ! 0, shape dst_x ! 1, K]"
    using blockwise_shape [OF bw [unfolded kept]] shr by simp
  from overlap_reduce_shape [OF orr this]
  have "shape out = filter (\<lambda>d. d \<noteq> 1) [B, shape dst_x ! 0, shape dst_x ! 1]" .
  then show ?thesis by (simp add: B_def)
qed

theorem result_shape_is_squeezed_witness:
  "parallel_gradient_search first_sample_kernel zero_differences grid_geometry
     example_data example_x example_y example_dst_x example_dst_y None
   = Inr \<lparr>shape = [2, 2], elems = [Fin 10, Fin 10, Fin 10, Fin 10]\<rparr>
   \<and> ndim (contents example_data) = 2
   \<and> shape \<lparr>shape = [2, 2], elems = [Fin 10, Fin 10, Fin 10, Fin 10]\<rparr>
       = filter (\<lambda>d. d \<noteq> 1) [shape example_dst_x ! 0, shape example_dst_x ! 1]"
proof -
  have 1: "parallel_gradient_search first_sample_kernel zero_differences grid_geometry
             example_data example_x example_y example_dst_x example_dst_y None
           = Inr \<lparr>shape = [2, 2], elems = [Fin 10, Fin 10, Fin 10, Fin 10]\<rparr>"
    by code_simp
  have 2: "ndim (contents example_data) = 2" by (simp add: ndim_def example_data_def)
  from result_shape_is_squeezed [OF 1] 2 show ?thesis using 1 by blast
qed

text \<open>
  Claim C2 (the code departs from it). The data of the example with a band axis of length
  one, shape \<open>[1, 4, 4]\<close>, is resampled to the 2 by 2 destination: the result of
  \<open>parallel_gradient_search\<close> has shape \<open>[2, 2]\<close> and not \<open>[1, 2, 2]\<close>, since
  \<^verbatim>\<open>squeeze()\<close> removes every axis of length one, the band axis of a 3D input among
  them.
\<close>

theorem one_band_axis_is_squeezed:
  "ndim (contents (newaxis_front example_data)) = 3
   \<and> shape (contents (newaxis_front example_data)) = [1, 4, 4]
   \<and> shape example_dst_x = [2, 2]
   \<and> parallel_gradient_search first_sample_kernel zero_differences grid_geometry
        (newaxis_front example_data) example_x example_y example_dst_x example_dst_y None
      = Inr \<lparr>shape = [2, 2], elems = [Fin 10, Fin 10, Fin 10, Fin 10]\<rparr>"
  by code_simp

end
